theory Spec2Isabelle
  imports Complex_Main "HOL-Library.Monad_Syntax"
begin

section \<open>Tensors\<close>

text \<open>
  A tensor is a shape together with the value at every index. Floating-point numbers are
  idealised to real numbers (no rounding, no infinities, no NaN, no dtype), so two
  computations that differ only in summation order have equal values. A torch operation
  that raises returns \<open>None\<close>. Only the values at valid indices of a tensor mean
  anything.
\<close>

record tensor =
  shape :: "nat list"
  elem :: "nat list \<Rightarrow> real"

definition ndim :: "tensor \<Rightarrow> nat" where
  "ndim x = length (shape x)"

definition valid_index :: "nat list \<Rightarrow> nat list \<Rightarrow> bool" where
  "valid_index sh idx = list_all2 (\<lambda>i n. i < n) idx sh"

text \<open>
  A dimension argument counts from the end when negative. A zero-dimensional tensor is
  treated as having one dimension of size one, as torch's dimension wrapping does.
\<close>

definition wrap_dim :: "nat \<Rightarrow> int \<Rightarrow> nat option" where
  "wrap_dim n d =
     (let m = (if n = 0 then 1 else int n)
      in if - m \<le> d \<and> d < m then Some (nat (if d < 0 then d + m else d)) else None)"

definition dim_size :: "nat list \<Rightarrow> nat \<Rightarrow> nat" where
  "dim_size sh k = (if k < length sh then sh ! k else 1)"

subsection \<open>Broadcasting\<close>

fun broadcast_rev :: "nat list \<Rightarrow> nat list \<Rightarrow> nat list option" where
  "broadcast_rev [] ys = Some ys"
| "broadcast_rev xs [] = Some xs"
| "broadcast_rev (x # xs) (y # ys) =
     (if x = y \<or> x = 1 \<or> y = 1
      then map_option ((#) (if x = 1 then y else x)) (broadcast_rev xs ys)
      else None)"

definition broadcast_shapes :: "nat list \<Rightarrow> nat list \<Rightarrow> nat list option" where
  "broadcast_shapes a b = map_option rev (broadcast_rev (rev a) (rev b))"

text \<open>
  The index into an operand of shape \<open>sh\<close> that a result index \<open>idx\<close> reads: aligned from
  the right, zero along a dimension of size one.
\<close>

definition bidx :: "nat list \<Rightarrow> nat list \<Rightarrow> nat list" where
  "bidx sh idx =
     map2 (\<lambda>n i. if n = 1 then 0 else i) sh
       (replicate (length sh - length idx) 0 @ drop (length idx - length sh) idx)"

definition binop :: "(real \<Rightarrow> real \<Rightarrow> real) \<Rightarrow> tensor \<Rightarrow> tensor \<Rightarrow> tensor option" where
  "binop f a b =
     (case broadcast_shapes (shape a) (shape b) of
        None \<Rightarrow> None
      | Some sh \<Rightarrow>
          Some \<lparr>shape = sh,
                elem = (\<lambda>idx. f (elem a (bidx (shape a) idx)) (elem b (bidx (shape b) idx)))\<rparr>)"

text \<open>
  An operation that writes its result into its left operand (\<open>+=\<close>, \<open>*=\<close>, \<open>/=\<close>,
  \<open>out=x\<close>): the broadcast result must have the left operand's shape.
\<close>

definition binop_inplace :: "(real \<Rightarrow> real \<Rightarrow> real) \<Rightarrow> tensor \<Rightarrow> tensor \<Rightarrow> tensor option" where
  "binop_inplace f a b =
     (case binop f a b of
        None \<Rightarrow> None
      | Some r \<Rightarrow> if shape r = shape a then Some r else None)"

definition unop :: "(real \<Rightarrow> real) \<Rightarrow> tensor \<Rightarrow> tensor" where
  "unop f a = \<lparr>shape = shape a, elem = (\<lambda>idx. f (elem a idx))\<rparr>"

subsection \<open>Reductions along one dimension\<close>

text \<open>
  \<open>torch.max(x, dim, keepdim=True)[0]\<close> raises when the reduced dimension is empty;
  \<open>torch.sum(x, dim, keepdim=True)\<close> gives zero there.
\<close>

definition max_keepdim :: "tensor \<Rightarrow> int \<Rightarrow> tensor option" where
  "max_keepdim x d =
     (case wrap_dim (ndim x) d of
        None \<Rightarrow> None
      | Some k \<Rightarrow>
          let n = dim_size (shape x) k
          in if n = 0 then None
             else Some \<lparr>shape = (shape x)[k := 1],
                        elem = (\<lambda>idx. Max ((\<lambda>j. elem x (idx[k := j])) ` {..<n}))\<rparr>)"

definition sum_keepdim :: "tensor \<Rightarrow> int \<Rightarrow> tensor option" where
  "sum_keepdim x d =
     (case wrap_dim (ndim x) d of
        None \<Rightarrow> None
      | Some k \<Rightarrow>
          let n = dim_size (shape x) k
          in Some \<lparr>shape = (shape x)[k := 1],
                    elem = (\<lambda>idx. \<Sum>j<n. elem x (idx[k := j]))\<rparr>)"

text \<open>
  The library's \<open>torch.softmax(input, dim)\<close>, by its documented meaning
  \<open>exp(x_i) / sum_j exp(x_j)\<close> along \<open>dim\<close>. The \<open>dtype\<close> argument only selects a
  floating-point format and has no counterpart over the reals.
\<close>

definition torch_softmax :: "tensor \<Rightarrow> int \<Rightarrow> tensor option" where
  "torch_softmax x d =
     (case wrap_dim (ndim x) d of
        None \<Rightarrow> None
      | Some k \<Rightarrow>
          let n = dim_size (shape x) k
          in Some \<lparr>shape = shape x,
                    elem = (\<lambda>idx. exp (elem x idx) / (\<Sum>j<n. exp (elem x (idx[k := j]))))\<rparr>)"

section \<open>The functions of \<open>modules.py\<close>\<close>

subsection \<open>\<open>softmax\<close>\<close>

text \<open>
  The value \<open>softmax(x, dim, in_place=...)\<close> returns. With \<open>in_place\<close> the source
  subtracts the maximum along \<open>dim\<close>, exponentiates, and divides by the sum, each time
  writing into \<open>x\<close>; otherwise it calls the library.
\<close>

definition softmax :: "tensor \<Rightarrow> int \<Rightarrow> bool \<Rightarrow> tensor option" where
  "softmax x d in_place =
     (if in_place then
        do {
          max_val \<leftarrow> max_keepdim x d;
          x1 \<leftarrow> binop_inplace (-) x max_val;
          let x2 = unop exp x1;
          summed \<leftarrow> sum_keepdim x2 d;
          binop_inplace (/) x2 summed
        }
      else torch_softmax x d)"

subsection \<open>Shapes that expand to another shape\<close>

text \<open>
  \<open>expandable src dst\<close>: a tensor of shape \<open>src\<close> broadcasts to shape \<open>dst\<close> without
  changing \<open>dst\<close> (dimensions aligned from the right, each equal or one).
\<close>

fun expandable_rev :: "nat list \<Rightarrow> nat list \<Rightarrow> bool" where
  "expandable_rev [] ys = True"
| "expandable_rev (x # xs) [] = False"
| "expandable_rev (x # xs) (y # ys) = ((x = y \<or> x = 1) \<and> expandable_rev xs ys)"

definition expandable :: "nat list \<Rightarrow> nat list \<Rightarrow> bool" where
  "expandable src dst = expandable_rev (rev src) (rev dst)"

text \<open>
  The tensor the in-place branch of \<open>softmax\<close> leaves in \<open>x\<close>, written out: \<open>m\<close> is
  \<open>max_val\<close>, \<open>e\<close> is \<open>x\<close> after \<open>torch.sub\<close> and \<open>torch.exp\<close>.
\<close>

definition softmax_inplace_value :: "tensor \<Rightarrow> nat \<Rightarrow> tensor" where
  "softmax_inplace_value x k =
     (let n = dim_size (shape x) k;
          m = (\<lambda>idx. Max ((\<lambda>j. elem x (idx[k := j])) ` {..<n}));
          e = (\<lambda>idx. exp (elem x (bidx (shape x) idx) - m (bidx ((shape x)[k := 1]) idx)))
      in \<lparr>shape = shape x,
          elem = (\<lambda>idx. e (bidx (shape x) idx) / (\<Sum>j<n. e ((bidx ((shape x)[k := 1]) idx)[k := j])))\<rparr>)"

subsection \<open>Indexing, slicing and splitting\<close>

text \<open>\<open>x.shape[d]\<close>: Python tuple indexing, an IndexError out of range.\<close>

definition shape_at :: "tensor \<Rightarrow> int \<Rightarrow> nat option" where
  "shape_at x d =
     (let n = int (ndim x)
      in if - n \<le> d \<and> d < n then Some (shape x ! nat (if d < 0 then d + n else d)) else None)"

text \<open>\<open>x.narrow(k, start, len)\<close>: the view of \<open>len\<close> entries from \<open>start\<close> along dimension \<open>k\<close>.\<close>

definition narrow :: "nat \<Rightarrow> nat \<Rightarrow> nat \<Rightarrow> tensor \<Rightarrow> tensor" where
  "narrow k start len x =
     \<lparr>shape = (shape x)[k := len], elem = (\<lambda>idx. elem x (idx[k := idx ! k + start]))\<rparr>"

text \<open>
  \<open>x.split(split_size, dim)\<close> with an integer size, as the library defines it: a negative
  size raises, size zero is allowed only on an empty dimension, there is always at least
  one chunk, and the last chunk holds what is left.
\<close>

definition split :: "tensor \<Rightarrow> int \<Rightarrow> int \<Rightarrow> tensor list option" where
  "split x split_size d =
     (if ndim x = 0 then None
      else case wrap_dim (ndim x) d of
        None \<Rightarrow> None
      | Some k \<Rightarrow>
          let n = shape x ! k; c = nat split_size
          in if split_size < 0 then None
             else if split_size = 0 \<and> n \<noteq> 0 then None
             else
               let num = (if c = 0 then 1 else max ((n + c - 1) div c) 1)
               in Some (map (\<lambda>i. narrow k (i * c) (if i < num - 1 then c else n - c * (num - 1)) x)
                          [0..<num]))"

text \<open>\<open>x[..., start:stop, :]\<close>: Python clamps the bounds of a slice to the dimension.\<close>

definition getitem_rows :: "tensor \<Rightarrow> nat \<Rightarrow> nat \<Rightarrow> tensor option" where
  "getitem_rows x start stop =
     (if ndim x < 2 then None
      else
        let k = ndim x - 2; n = shape x ! k; s = min start n; e = min stop n
        in Some (narrow k s (e - s) x))"

text \<open>
  \<open>x[..., start:stop, :] = v\<close>: \<open>v\<close>, leading dimensions of size one dropped, must
  broadcast to the shape of the slice; the other rows of \<open>x\<close> stay as they are.
\<close>

definition setitem_rows :: "tensor \<Rightarrow> nat \<Rightarrow> nat \<Rightarrow> tensor \<Rightarrow> tensor option" where
  "setitem_rows x start stop v =
     (if ndim x < 2 then None
      else
        let k = ndim x - 2; n = shape x ! k; s = min start n; e = min stop n;
            view = (shape x)[k := e - s]
        in if expandable (dropWhile (\<lambda>m. m = 1) (shape v)) view
           then Some \<lparr>shape = shape x,
                      elem = (\<lambda>idx. if s \<le> idx ! k \<and> idx ! k < e
                                     then elem v (bidx (shape v) (idx[k := idx ! k - s]))
                                     else elem x idx)\<rparr>
           else None)"

subsection \<open>\<open>torch.einsum\<close> with two operands\<close>

text \<open>
  The subscripts of one operand: \<open>Dots ''id''\<close> is \<open>...id\<close>, \<open>Plain ''arhc''\<close> is
  \<open>arhc\<close>. Every equation of the source whose operands have dots has them on its output
  too, so the output is given by its letters alone and carries the broadcast leading
  dimensions of the operands. Dimensions with the same letter must agree or be one;
  letters that are not in the output are summed over.
\<close>

datatype subscripts = Plain string | Dots string

fun labels :: "subscripts \<Rightarrow> string" where
  "labels (Plain s) = s"
| "labels (Dots s) = s"

fun operand_ok :: "subscripts \<Rightarrow> nat list \<Rightarrow> bool" where
  "operand_ok (Plain s) sh = (length sh = length s)"
| "operand_ok (Dots s) sh = (length s \<le> length sh)"

definition dots_shape :: "subscripts \<Rightarrow> nat list \<Rightarrow> nat list" where
  "dots_shape sp sh = take (length sh - length (labels sp)) sh"

definition label_dims :: "subscripts \<Rightarrow> nat list \<Rightarrow> (char \<times> nat) list" where
  "label_dims sp sh = zip (labels sp) (drop (length sh - length (labels sp)) sh)"

definition label_sizes :: "(char \<times> nat) list \<Rightarrow> char \<Rightarrow> nat list" where
  "label_sizes ds l = map snd (filter (\<lambda>p. fst p = l) ds)"

definition label_size :: "(char \<times> nat) list \<Rightarrow> char \<Rightarrow> nat" where
  "label_size ds l = (case filter (\<lambda>n. n \<noteq> 1) (label_sizes ds l) of [] \<Rightarrow> 1 | n # _ \<Rightarrow> n)"

definition label_ok :: "(char \<times> nat) list \<Rightarrow> char \<Rightarrow> bool" where
  "label_ok ds l =
     (label_sizes ds l \<noteq> [] \<and> list_all (\<lambda>n. n = 1 \<or> n = label_size ds l) (label_sizes ds l))"

definition operand_index ::
  "subscripts \<Rightarrow> nat list \<Rightarrow> nat list \<Rightarrow> (char \<times> nat) list \<Rightarrow> nat list" where
  "operand_index sp sh bi env =
     bidx (dots_shape sp sh) bi @
     map (\<lambda>(l, n). if n = 1 then 0 else (case map_of env l of Some v \<Rightarrow> v | None \<Rightarrow> 0))
       (label_dims sp sh)"

fun esum :: "(char \<times> nat) list \<Rightarrow> ((char \<times> nat) list \<Rightarrow> real) \<Rightarrow> real" where
  "esum [] f = f []"
| "esum ((l, n) # ls) f = (\<Sum>v<n. esum ls (\<lambda>env. f ((l, v) # env)))"

definition einsum :: "subscripts \<Rightarrow> subscripts \<Rightarrow> string \<Rightarrow> tensor \<Rightarrow> tensor \<Rightarrow> tensor option" where
  "einsum sa sb lo a b =
     (if \<not> (operand_ok sa (shape a) \<and> operand_ok sb (shape b)) then None
      else case broadcast_shapes (dots_shape sa (shape a)) (dots_shape sb (shape b)) of
        None \<Rightarrow> None
      | Some bs \<Rightarrow>
          let ds = label_dims sa (shape a) @ label_dims sb (shape b);
              ls = remdups (labels sa @ labels sb);
              summed = filter (\<lambda>l. l \<notin> set lo) ls
          in if list_all (label_ok ds) ls \<and> set lo \<subseteq> set ls \<and> distinct lo
             then Some \<lparr>shape = bs @ map (label_size ds) lo,
                        elem = (\<lambda>idx.
                          let nb = length idx - length lo;
                              bi = take nb idx;
                              env0 = zip lo (drop nb idx)
                          in esum (map (\<lambda>l. (l, label_size ds l)) summed)
                               (\<lambda>env. elem a (operand_index sa (shape a) bi (env @ env0)) *
                                      elem b (operand_index sb (shape b) bi (env @ env0))))\<rparr>
             else None)"

subsection \<open>\<open>_attention\<close> and \<open>attention\<close>\<close>

text \<open>
  The source's \<open>_attention\<close> (a name cannot start with an underscore here). \<open>scale\<close> is
  the float the callers pass. The in-place softmax runs on the fresh tensor
  \<open>logits + bias\<close>.
\<close>

definition private_attention ::
  "tensor \<Rightarrow> tensor \<Rightarrow> real \<Rightarrow> tensor \<Rightarrow> tensor \<Rightarrow> (tensor \<times> tensor) option" where
  "private_attention query key scale value bias =
     do {
       logits \<leftarrow> einsum (Dots ''id'') (Dots ''jd'') ''ij'' (unop (\<lambda>v. v * scale) query) key;
       x \<leftarrow> binop (+) logits bias;
       attn \<leftarrow> softmax x (- 1) True;
       out \<leftarrow> einsum (Dots ''ij'') (Dots ''jd'') ''id'' attn value;
       Some (out, attn)
     }"

text \<open>
  The loop of \<open>attention\<close> over the chunks of the query, with the chunk counter \<open>i\<close> of
  \<open>enumerate\<close> and the two result buffers as state.
\<close>

fun attention_loop ::
  "tensor \<Rightarrow> real \<Rightarrow> tensor \<Rightarrow> tensor \<Rightarrow> nat \<Rightarrow> nat \<Rightarrow> nat \<Rightarrow> tensor list \<Rightarrow>
   tensor \<times> tensor \<Rightarrow> (tensor \<times> tensor) option" where
  "attention_loop key scale value bias q_length subbatch_size i [] (output, logits) =
     Some (output, logits)"
| "attention_loop key scale value bias q_length subbatch_size i (q_i # rest) (output, logits) =
     do {
       let start = i * subbatch_size;
       let stop = (i + 1) * subbatch_size;
       n \<leftarrow> shape_at bias (- 2);
       b_i \<leftarrow> (if n \<noteq> q_length then Some bias else getitem_rows bias start stop);
       (res, attn) \<leftarrow> private_attention q_i key scale value b_i;
       output' \<leftarrow> setitem_rows output start stop res;
       logits' \<leftarrow> setitem_rows logits start stop attn;
       attention_loop key scale value bias q_length subbatch_size (i + 1) rest (output', logits')
     }"

text \<open>
  \<open>attention\<close>. \<open>subbatch_size or q_length\<close> takes \<open>q_length\<close> for \<open>None\<close> and for zero.
  \<open>torch.empty\<close> returns uninitialised memory: \<open>junk_o\<close> and \<open>junk_l\<close> are whatever the two
  buffers hold before the loop writes them.
\<close>

definition attention ::
  "tensor \<Rightarrow> tensor \<Rightarrow> real \<Rightarrow> tensor \<Rightarrow> tensor \<Rightarrow> int option \<Rightarrow>
   (nat list \<Rightarrow> real) \<Rightarrow> (nat list \<Rightarrow> real) \<Rightarrow> (tensor \<times> tensor) option" where
  "attention query key scale value bias subbatch_size junk_o junk_l =
     do {
       q_length \<leftarrow> shape_at query (- 2);
       k_length \<leftarrow> shape_at key (- 2);
       v_dim \<leftarrow> shape_at value (- 1);
       let subbatch_size =
         (case subbatch_size of None \<Rightarrow> int q_length
          | Some c \<Rightarrow> if c = 0 then int q_length else c);
       let batch_shape = take (ndim query - 2) (shape query);
       let output = \<lparr>shape = batch_shape @ [q_length, v_dim], elem = junk_o\<rparr>;
       let logits = \<lparr>shape = batch_shape @ [q_length, k_length], elem = junk_l\<rparr>;
       chunks \<leftarrow> split query subbatch_size (- 2);
       attention_loop key scale value bias q_length (nat subbatch_size) 0 chunks (output, logits)
     }"

subsection \<open>What attention computes, index by index\<close>

text \<open>
  The reference the chunked loop is compared with: for leading index \<open>bi\<close>, query row
  \<open>i\<close> and key row \<open>j\<close>, the logit, the softmax weight over the \<open>nk\<close> keys, and the
  weighted sum of the value rows. \<open>d\<close> is the width of the query and key rows.
\<close>

definition att_logit ::
  "tensor \<Rightarrow> tensor \<Rightarrow> real \<Rightarrow> tensor \<Rightarrow> nat \<Rightarrow> nat list \<Rightarrow> nat \<Rightarrow> nat \<Rightarrow> real" where
  "att_logit q k scale b d bi i j =
     (\<Sum>v<d. elem q (bi @ [i, v]) * scale * elem k (bi @ [j, v])) +
     elem b (bidx (shape b) (bi @ [i, j]))"

definition att_weight ::
  "tensor \<Rightarrow> tensor \<Rightarrow> real \<Rightarrow> tensor \<Rightarrow> nat \<Rightarrow> nat \<Rightarrow> nat list \<Rightarrow> nat \<Rightarrow> nat \<Rightarrow> real" where
  "att_weight q k scale b d nk bi i j =
     exp (att_logit q k scale b d bi i j) / (\<Sum>j'<nk. exp (att_logit q k scale b d bi i j'))"

definition att_out ::
  "tensor \<Rightarrow> tensor \<Rightarrow> real \<Rightarrow> tensor \<Rightarrow> tensor \<Rightarrow> nat \<Rightarrow> nat \<Rightarrow> nat list \<Rightarrow> nat \<Rightarrow> nat \<Rightarrow> real" where
  "att_out q k scale v b d nk bi i e =
     (\<Sum>j<nk. att_weight q k scale b d nk bi i j * elem v (bi @ [j, e]))"

subsection \<open>The chunks of \<open>split\<close>\<close>

text \<open>
  The number of chunks \<open>split\<close> makes of a dimension of size \<open>n\<close> with chunk size \<open>c\<close>,
  and the size of chunk \<open>i\<close>.
\<close>

definition n_chunks :: "nat \<Rightarrow> nat \<Rightarrow> nat" where
  "n_chunks n c = (if c = 0 then 1 else max ((n + c - 1) div c) 1)"

definition chunk_len :: "nat \<Rightarrow> nat \<Rightarrow> nat \<Rightarrow> nat" where
  "chunk_len n c i = (if i < n_chunks n c - 1 then c else n - c * (n_chunks n c - 1))"

subsection \<open>Tensors for concrete inputs\<close>

text \<open>\<open>torch.full(shape, c)\<close>, and a tensor whose entries differ: the sum of the index.\<close>

definition full :: "nat list \<Rightarrow> real \<Rightarrow> tensor" where
  "full sh c = \<lparr>shape = sh, elem = (\<lambda>idx. c)\<rparr>"

definition ramp :: "nat list \<Rightarrow> tensor" where
  "ramp sh = \<lparr>shape = sh, elem = (\<lambda>idx. real (sum_list idx))\<rparr>"

subsection \<open>Views: inserting, removing and exchanging dimensions\<close>

definition insert_ones :: "nat \<Rightarrow> nat \<Rightarrow> tensor \<Rightarrow> tensor" where
  "insert_ones p n x =
     \<lparr>shape = take p (shape x) @ replicate n 1 @ drop p (shape x),
      elem = (\<lambda>idx. elem x (take p idx @ drop (p + n) idx))\<rparr>"

definition remove_dim :: "nat \<Rightarrow> nat \<Rightarrow> tensor \<Rightarrow> tensor" where
  "remove_dim k i x =
     \<lparr>shape = take k (shape x) @ drop (Suc k) (shape x),
      elem = (\<lambda>idx. elem x (take k idx @ [i] @ drop k idx))\<rparr>"

definition swap_dims :: "nat \<Rightarrow> nat \<Rightarrow> tensor \<Rightarrow> tensor" where
  "swap_dims k0 k1 x =
     \<lparr>shape = (shape x)[k0 := shape x ! k1, k1 := shape x ! k0],
      elem = (\<lambda>idx. elem x (idx[k0 := idx ! k1, k1 := idx ! k0]))\<rparr>"

text \<open>\<open>x.unsqueeze(d)\<close>: \<open>d\<close> may also name the position after the last dimension.\<close>

definition unsqueeze :: "tensor \<Rightarrow> int \<Rightarrow> tensor option" where
  "unsqueeze x d =
     (let n = int (ndim x)
      in if - (n + 1) \<le> d \<and> d \<le> n
         then Some (insert_ones (nat (if d < 0 then d + n + 1 else d)) 1 x)
         else None)"

text \<open>\<open>x.squeeze(d)\<close> removes the dimension only when its size is one; otherwise it returns \<open>x\<close>.\<close>

definition squeeze :: "tensor \<Rightarrow> int \<Rightarrow> tensor option" where
  "squeeze x d =
     (case wrap_dim (ndim x) d of
        None \<Rightarrow> None
      | Some k \<Rightarrow> if k < ndim x \<and> shape x ! k = 1 then Some (remove_dim k 0 x) else Some x)"


text \<open>\<open>x.transpose(d0, d1)\<close> (the list library already has a \<open>transpose\<close>).\<close>

definition torch_transpose :: "tensor \<Rightarrow> int \<Rightarrow> int \<Rightarrow> tensor option" where
  "torch_transpose x d0 d1 =
     (case (wrap_dim (ndim x) d0, wrap_dim (ndim x) d1) of
        (Some k0, Some k1) \<Rightarrow> Some (swap_dims k0 k1 x)
      | _ \<Rightarrow> None)"

text \<open>
  \<open>x.permute(dims)\<close>: \<open>dims\<close> must name every dimension of \<open>x\<close> exactly once; dimension \<open>i\<close>
  of the result is dimension \<open>dims[i]\<close> of \<open>x\<close>.
\<close>

definition index_of :: "nat list \<Rightarrow> nat \<Rightarrow> nat" where
  "index_of ks p = length (takeWhile (\<lambda>k. k \<noteq> p) ks)"

definition permute :: "tensor \<Rightarrow> int list \<Rightarrow> tensor option" where
  "permute x dims =
     (if length dims \<noteq> ndim x then None
      else case those (map (wrap_dim (ndim x)) dims) of
        None \<Rightarrow> None
      | Some ks \<Rightarrow>
          if distinct ks
          then Some \<lparr>shape = map (\<lambda>k. shape x ! k) ks,
                     elem = (\<lambda>idx. elem x (map (\<lambda>p. idx ! index_of ks p) [0..<ndim x]))\<rparr>
          else None)"


text \<open>\<open>x[..., None, ..., None, :]\<close> with \<open>n\<close> times \<open>None\<close>: needs one dimension for the colon.\<close>

definition getitem_nones_before_last :: "tensor \<Rightarrow> nat \<Rightarrow> tensor option" where
  "getitem_nones_before_last x n =
     (if ndim x = 0 then None else Some (insert_ones (ndim x - 1) n x))"

text \<open>\<open>x.split([s1, s2, ...], dim)\<close>: the sizes must add up to the dimension.\<close>

definition split_sizes :: "tensor \<Rightarrow> nat list \<Rightarrow> int \<Rightarrow> tensor list option" where
  "split_sizes x sizes d =
     (if ndim x = 0 then None
      else case wrap_dim (ndim x) d of
        None \<Rightarrow> None
      | Some k \<Rightarrow>
          if sum_list sizes \<noteq> shape x ! k then None
          else Some (map (\<lambda>i. narrow k (sum_list (take i sizes)) (sizes ! i) x)
                       [0..<length sizes]))"

text \<open>\<open>xs[i]\<close> on a Python tuple.\<close>

definition nth_opt :: "'a list \<Rightarrow> nat \<Rightarrow> 'a option" where
  "nth_opt xs i = (if i < length xs then Some (xs ! i) else None)"

subsection \<open>Library layers\<close>

definition sigmoid :: "real \<Rightarrow> real" where
  "sigmoid x = 1 / (1 + exp (- x))"

text \<open>
  \<open>nn.Linear(in_features, out_features)\<close>: a weight of shape \<open>(out, in)\<close> and a bias of shape
  \<open>(out)\<close>; the last dimension of the input must be \<open>in\<close>.
\<close>

record Linear =
  lin_weight :: tensor
  lin_bias :: tensor

definition Linear_init :: "nat \<Rightarrow> nat \<Rightarrow> (nat list \<Rightarrow> real) \<Rightarrow> (nat list \<Rightarrow> real) \<Rightarrow> Linear" where
  "Linear_init in_features out_features w b =
     \<lparr>lin_weight = \<lparr>shape = [out_features, in_features], elem = w\<rparr>,
      lin_bias = \<lparr>shape = [out_features], elem = b\<rparr>\<rparr>"

definition Linear_forward :: "Linear \<Rightarrow> tensor \<Rightarrow> tensor option" where
  "Linear_forward m x =
     (case shape (lin_weight m) of
        [out_f, in_f] \<Rightarrow>
          if ndim x = 0 \<or> last (shape x) \<noteq> in_f \<or> shape (lin_bias m) \<noteq> [out_f] then None
          else Some \<lparr>shape = butlast (shape x) @ [out_f],
                     elem = (\<lambda>idx. (\<Sum>a<in_f. elem x (butlast idx @ [a]) *
                                              elem (lin_weight m) [last idx, a]) +
                                    elem (lin_bias m) [last idx])\<rparr>
      | _ \<Rightarrow> None)"


subsection \<open>The helpers of \<open>omegafold.utils\<close>\<close>

text \<open>
  Modelled from the spec: \<open>utils.normalize\<close> is not among the sources. The spec (4.6):
  mean/variance normalization over the trailing feature axis, the mean subtracted, divided
  by the standard deviation plus a small epsilon. No scale or shift is learned here; the
  spec gives no value for epsilon, \<open>1e-5\<close> is taken. (The name \<open>normalize\<close> is taken by the
  library.)
\<close>

definition norm_eps :: real where
  "norm_eps = 1 / 100000"

definition utils_normalize :: "tensor \<Rightarrow> tensor option" where
  "utils_normalize x =
     (if ndim x = 0 then None
      else
        let k = ndim x - 1; n = shape x ! k;
            mean = (\<lambda>idx. (\<Sum>a<n. elem x (idx[k := a])) / real n);
            var = (\<lambda>idx. (\<Sum>a<n. (elem x (idx[k := a]) - mean idx)\<^sup>2) / real n)
        in Some \<lparr>shape = shape x,
                  elem = (\<lambda>idx. (elem x idx - mean idx) / (sqrt (var idx) + norm_eps))\<rparr>)"

text \<open>
  Modelled from the spec: \<open>utils.mask2bias\<close> is not among the sources. The spec (4.6):
  it maps 1 to 0 and 0 to a large negative constant, \<open>-1e9\<close>.
\<close>

definition mask_inf :: real where
  "mask_inf = 1000000000"

definition mask2bias :: "tensor \<Rightarrow> tensor" where
  "mask2bias x = unop (\<lambda>m. (m - 1) * mask_inf) x"

subsection \<open>\<open>Attention\<close>\<close>

text \<open>
  The module as \<open>__init__\<close> builds it: its hyperparameters and its six parameter tensors,
  whose shapes the constructor fixes and whose contents are whatever was loaded.
\<close>

record Attention =
  attn_c :: nat
  attn_n_head :: nat
  attn_gating :: bool
  attn_q_dim :: nat
  attn_n_axis :: nat
  qg_weights :: tensor
  kv_weights :: tensor
  qg_bias :: tensor
  kv_bias :: tensor
  o_weights :: tensor
  o_bias :: tensor

definition Attention_init ::
  "nat \<Rightarrow> nat \<Rightarrow> nat \<Rightarrow> bool \<Rightarrow> nat \<Rightarrow> nat \<Rightarrow> nat \<Rightarrow>
   (nat list \<Rightarrow> real) \<Rightarrow> (nat list \<Rightarrow> real) \<Rightarrow> (nat list \<Rightarrow> real) \<Rightarrow>
   (nat list \<Rightarrow> real) \<Rightarrow> (nat list \<Rightarrow> real) \<Rightarrow> (nat list \<Rightarrow> real) \<Rightarrow> Attention" where
  "Attention_init q_dim kv_dim n_head gating c out_dim n_axis w_qg w_kv b_qg b_kv w_o b_o =
     \<lparr>attn_c = c, attn_n_head = n_head, attn_gating = gating, attn_q_dim = q_dim,
      attn_n_axis = n_axis,
      qg_weights = \<lparr>shape = [q_dim, n_axis, n_head, ((if gating then 1 else 0) + 1) * c],
                    elem = w_qg\<rparr>,
      kv_weights = \<lparr>shape = [kv_dim, n_axis, n_head, 2 * c], elem = w_kv\<rparr>,
      qg_bias = \<lparr>shape = [n_axis, n_head, 1, c * (1 + (if gating then 1 else 0))],
                 elem = b_qg\<rparr>,
      kv_bias = \<lparr>shape = [n_axis, n_head, 1, c * 2], elem = b_kv\<rparr>,
      o_weights = \<lparr>shape = [n_axis, n_head, c, out_dim], elem = w_o\<rparr>,
      o_bias = \<lparr>shape = [out_dim, n_axis], elem = b_o\<rparr>\<rparr>"

text \<open>
  \<open>Attention.forward\<close>. \<open>bias\<close> may be \<open>None\<close>, and then \<open>attention\<close> raises on
  \<open>bias.shape\<close>. \<open>fwd_cfg\<close> is \<open>None\<close> or carries a \<open>subbatch_size\<close> that may itself be \<open>None\<close>.
  \<open>self.c ** (-0.5)\<close> raises for \<open>c = 0\<close>. The result is the pair the source returns.
\<close>

definition Attention_forward ::
  "Attention \<Rightarrow> tensor \<Rightarrow> tensor \<Rightarrow> tensor option \<Rightarrow> int option option \<Rightarrow>
   (nat list \<Rightarrow> real) \<Rightarrow> (nat list \<Rightarrow> real) \<Rightarrow> (tensor \<times> tensor) option" where
  "Attention_forward self q_inputs kv_inputs bias fwd_cfg junk_o junk_l =
     do {
       q_last \<leftarrow> shape_at q_inputs (- 1);
       let to_unsqueeze = (q_last \<noteq> attn_n_axis self \<and> q_last = attn_q_dim self);
       q_inputs \<leftarrow> (if to_unsqueeze then unsqueeze q_inputs (- 1) else Some q_inputs);
       kv_inputs \<leftarrow> (if to_unsqueeze then unsqueeze kv_inputs (- 1) else Some kv_inputs);
       bias \<leftarrow> (if to_unsqueeze
                then (case bias of None \<Rightarrow> Some None
                      | Some b \<Rightarrow> map_option Some (unsqueeze b (- 4)))
                else Some bias);
       qg \<leftarrow> einsum (Dots ''qar'') (Plain ''arhc'') ''rhqc'' q_inputs (qg_weights self);
       qg \<leftarrow> binop_inplace (+) qg (qg_bias self);
       q_out \<leftarrow> split qg (int (attn_c self)) (- 1);
       q \<leftarrow> nth_opt q_out 0;
       kv \<leftarrow> einsum (Dots ''kar'') (Plain ''arhc'') ''rhkc'' kv_inputs (kv_weights self);
       kv \<leftarrow> binop_inplace (+) kv (kv_bias self);
       kvs \<leftarrow> split_sizes kv [attn_c self, attn_c self] (- 1);
       (k, v) \<leftarrow> (case kvs of [k, v] \<Rightarrow> Some (k, v) | _ \<Rightarrow> None);
       subbatch_size \<leftarrow> (case fwd_cfg of
                           None \<Rightarrow> map_option (\<lambda>n. Some (int n)) (shape_at q (- 4))
                         | Some s \<Rightarrow> Some s);
       scale \<leftarrow> (if attn_c self = 0 then None else Some (real (attn_c self) powr (- 1 / 2)));
       bias \<leftarrow> bias;
       (attn_out, logits) \<leftarrow> attention q k scale v bias subbatch_size junk_o junk_l;
       attn_out \<leftarrow> (if attn_gating self
                    then do {
                      g_in \<leftarrow> nth_opt q_out 1;
                      binop_inplace (*) attn_out (unop sigmoid g_in)
                    }
                    else Some attn_out);
       output \<leftarrow> einsum (Dots ''rhqc'') (Plain ''rhco'') ''qor'' attn_out (o_weights self);
       output \<leftarrow> binop_inplace (+) output (o_bias self);
       (output, logits) \<leftarrow> (if to_unsqueeze
                            then do {
                              output \<leftarrow> squeeze output (- 1);
                              logits \<leftarrow> squeeze logits (- 4);
                              Some (output, logits)
                            }
                            else Some (output, logits));
       l1 \<leftarrow> unsqueeze logits (- 1);
       l2 \<leftarrow> torch_transpose l1 (- 1) (- 4);
       l3 \<leftarrow> squeeze l2 (- 4);
       Some (output, l3)
     }"

text \<open>
  The projections of \<open>Attention.forward\<close> written out, for stating results: entry
  \<open>[r, h, q, off + cc]\<close> of \<open>einsum('...qar,arhc->...rhqc', x, w) + b\<close>.
\<close>

definition proj ::
  "tensor \<Rightarrow> (nat list \<Rightarrow> real) \<Rightarrow> (nat list \<Rightarrow> real) \<Rightarrow> nat \<Rightarrow> nat \<Rightarrow>
   nat list \<Rightarrow> nat \<Rightarrow> nat \<Rightarrow> nat \<Rightarrow> nat \<Rightarrow> real" where
  "proj x w b da off bi r h q cc =
     (\<Sum>a<da. elem x (bi @ [q, a, r]) * w [a, r, h, off + cc]) + b [r, h, 0, off + cc]"

text \<open>The values \<open>fwd_cfg\<close> takes: absent, or a chunk size that is absent or not negative.\<close>

definition fwd_cfg_ok :: "int option option \<Rightarrow> bool" where
  "fwd_cfg_ok fwd_cfg =
     (case fwd_cfg of None \<Rightarrow> True | Some None \<Rightarrow> True | Some (Some s) \<Rightarrow> 0 \<le> s)"

subsection \<open>\<open>AttentionWEdgeBias\<close>\<close>

text \<open>
  The module as \<open>__init__\<close> builds it: a linear layer from \<open>d_edge\<close> to \<open>n_head\<close> and an
  \<open>Attention\<close> with \<open>q_dim = kv_dim = out_dim = d_node\<close> and one track. The arguments
  \<open>attn_gating\<close> and \<open>attn_c\<close> are \<open>gating\<close> and \<open>c\<close> here.
\<close>

record AttentionWEdgeBias =
  proj_edge_bias :: Linear
  awe_attention :: Attention

definition AttentionWEdgeBias_init ::
  "nat \<Rightarrow> nat \<Rightarrow> nat \<Rightarrow> bool \<Rightarrow> nat \<Rightarrow>
   (nat list \<Rightarrow> real) \<Rightarrow> (nat list \<Rightarrow> real) \<Rightarrow>
   (nat list \<Rightarrow> real) \<Rightarrow> (nat list \<Rightarrow> real) \<Rightarrow> (nat list \<Rightarrow> real) \<Rightarrow>
   (nat list \<Rightarrow> real) \<Rightarrow> (nat list \<Rightarrow> real) \<Rightarrow> (nat list \<Rightarrow> real) \<Rightarrow> AttentionWEdgeBias" where
  "AttentionWEdgeBias_init d_node d_edge n_head gating c w_e b_e
     w_qg w_kv b_qg b_kv w_o b_o =
     \<lparr>proj_edge_bias = Linear_init d_edge n_head w_e b_e,
      awe_attention = Attention_init d_node d_node n_head gating c d_node 1
                        w_qg w_kv b_qg b_kv w_o b_o\<rparr>"

text \<open>
  \<open>AttentionWEdgeBias.forward\<close> up to the call of \<open>self.attention\<close>, whose pair of results
  the source unpacks as \<open>attn_out, _\<close>; \<open>forward\<close> returns the first of them. \<open>m\<close> is
  the argument \<open>mask\<close>.
\<close>

definition AttentionWEdgeBias_attend ::
  "AttentionWEdgeBias \<Rightarrow> tensor \<Rightarrow> tensor \<Rightarrow> tensor \<Rightarrow> int option option \<Rightarrow>
   (nat list \<Rightarrow> real) \<Rightarrow> (nat list \<Rightarrow> real) \<Rightarrow> (tensor \<times> tensor) option" where
  "AttentionWEdgeBias_attend self node_repr edge_repr m fwd_cfg junk_o junk_l =
     do {
       node_repr \<leftarrow> utils_normalize node_repr;
       edge_repr \<leftarrow> utils_normalize edge_repr;
       projected \<leftarrow> Linear_forward (proj_edge_bias self) edge_repr;
       edge_bias \<leftarrow> permute projected [2, 0, 1];
       m1 \<leftarrow> getitem_nones_before_last m 2;
       bias \<leftarrow> binop (+) edge_bias (mask2bias m1);
       Attention_forward (awe_attention self) node_repr node_repr (Some bias) fwd_cfg junk_o junk_l
     }"

definition AttentionWEdgeBias_forward ::
  "AttentionWEdgeBias \<Rightarrow> tensor \<Rightarrow> tensor \<Rightarrow> tensor \<Rightarrow> int option option \<Rightarrow>
   (nat list \<Rightarrow> real) \<Rightarrow> (nat list \<Rightarrow> real) \<Rightarrow> tensor option" where
  "AttentionWEdgeBias_forward self node_repr edge_repr m fwd_cfg junk_o junk_l =
     map_option fst (AttentionWEdgeBias_attend self node_repr edge_repr m fwd_cfg junk_o junk_l)"

text \<open>
  The logit of head \<open>h\<close>, query \<open>q\<close> and key \<open>k\<close> in \<open>AttentionWEdgeBias.forward\<close>, written
  out: \<open>nn\<close> is the normalized node tensor with the track axis inserted, \<open>ne\<close> the
  normalized edge tensor, \<open>m\<close> the mask.
\<close>

definition awe_logit ::
  "tensor \<Rightarrow> tensor \<Rightarrow> tensor \<Rightarrow> (nat list \<Rightarrow> real) \<Rightarrow> (nat list \<Rightarrow> real) \<Rightarrow>
   (nat list \<Rightarrow> real) \<Rightarrow> (nat list \<Rightarrow> real) \<Rightarrow> (nat list \<Rightarrow> real) \<Rightarrow> (nat list \<Rightarrow> real) \<Rightarrow>
   nat \<Rightarrow> nat \<Rightarrow> nat \<Rightarrow> nat list \<Rightarrow> nat \<Rightarrow> nat \<Rightarrow> nat \<Rightarrow> real" where
  "awe_logit nn ne m w_e b_e w_qg b_qg w_kv b_kv d_node d_edge c bi h q k =
     (\<Sum>v<c. proj nn w_qg b_qg d_node 0 bi 0 h q v * (real c powr (- 1 / 2)) *
             proj nn w_kv b_kv d_node 0 bi 0 h k v) +
     ((\<Sum>a<d_edge. elem ne [q, k, a] * w_e [h, a]) + b_e [h] +
      (elem m (bi @ [k]) - 1) * mask_inf)"

subsection \<open>\<open>GeometricAttention\<close>\<close>








section \<open>Which tensors \<open>attention\<close> writes\<close>

text \<open>
  The same functions over an explicit store, to see what they overwrite. The store is the
  list of the tensors allocated so far and an address is a position in it. A tensor that a
  function is given is a reference: an address together with the view through which it is
  read (the identity, a chunk of \<open>split\<close>, a slice). Operations that return a new tensor
  allocate; operations with \<open>out=x\<close>, \<open>x /= ...\<close> and \<open>x[...] = ...\<close> overwrite the
  tensor at the address of \<open>x\<close>.
\<close>

type_synonym store = "tensor list"

type_synonym tref = "nat \<times> (tensor \<Rightarrow> tensor)"

definition whole :: "nat \<Rightarrow> tref" where
  "whole a = (a, (\<lambda>t. t))"

definition read :: "store \<Rightarrow> tref \<Rightarrow> tensor" where
  "read s r = snd r (s ! fst r)"

definition alloc :: "store \<Rightarrow> tensor \<Rightarrow> store \<times> nat" where
  "alloc s t = (s @ [t], length s)"

text \<open>
  \<open>softmax(x, dim, in_place=...)\<close> on the tensor at address \<open>x\<close>; the result is the store
  and the address of the returned tensor, which in place is \<open>x\<close> itself.
\<close>

definition softmax_st :: "store \<Rightarrow> nat \<Rightarrow> int \<Rightarrow> bool \<Rightarrow> (store \<times> nat) option" where
  "softmax_st s x d in_place =
     (if in_place then
        do {
          max_val \<leftarrow> max_keepdim (s ! x) d;
          let (s, max_val) = alloc s max_val;
          x1 \<leftarrow> binop_inplace (-) (s ! x) (s ! max_val);
          let s = s[x := x1];
          let s = s[x := unop exp (s ! x)];
          summed \<leftarrow> sum_keepdim (s ! x) d;
          let (s, summed) = alloc s summed;
          x2 \<leftarrow> binop_inplace (/) (s ! x) (s ! summed);
          Some (s[x := x2], x)
        }
      else
        do {
          y \<leftarrow> torch_softmax (s ! x) d;
          Some (alloc s y)
        })"

text \<open>\<open>_attention\<close>: \<open>query * scale\<close>, the logits and \<open>logits + bias\<close> are new tensors.\<close>

definition private_attention_st ::
  "store \<Rightarrow> tref \<Rightarrow> tref \<Rightarrow> real \<Rightarrow> tref \<Rightarrow> tref \<Rightarrow> (store \<times> nat \<times> nat) option" where
  "private_attention_st s query key scale value bias =
     do {
       let (s, scaled) = alloc s (unop (\<lambda>v. v * scale) (read s query));
       logits \<leftarrow> einsum (Dots ''id'') (Dots ''jd'') ''ij'' (s ! scaled) (read s key);
       let (s, logits) = alloc s logits;
       x \<leftarrow> binop (+) (s ! logits) (read s bias);
       let (s, x) = alloc s x;
       (s, attn) \<leftarrow> softmax_st s x (- 1) True;
       out \<leftarrow> einsum (Dots ''ij'') (Dots ''jd'') ''id'' (s ! attn) (read s value);
       let (s, out) = alloc s out;
       Some (s, out, attn)
     }"

text \<open>The loop of \<open>attention\<close>; \<open>output\<close> and \<open>logits\<close> are the addresses of the two buffers.\<close>

fun attention_loop_st ::
  "tref \<Rightarrow> real \<Rightarrow> tref \<Rightarrow> tref \<Rightarrow> nat \<Rightarrow> nat \<Rightarrow> nat \<Rightarrow> tref list \<Rightarrow>
   store \<times> nat \<times> nat \<Rightarrow> (store \<times> nat \<times> nat) option" where
  "attention_loop_st key scale value bias q_length subbatch_size i [] (s, output, logits) =
     Some (s, output, logits)"
| "attention_loop_st key scale value bias q_length subbatch_size i (q_i # rest) (s, output, logits) =
     do {
       let start = i * subbatch_size;
       let stop = (i + 1) * subbatch_size;
       n \<leftarrow> shape_at (read s bias) (- 2);
       b_i \<leftarrow> (if n \<noteq> q_length then Some bias
               else map_option
                      (\<lambda>_. (fst bias, (\<lambda>t. the (getitem_rows (snd bias t) start stop))))
                      (getitem_rows (read s bias) start stop));
       (s, res, attn) \<leftarrow> private_attention_st s q_i key scale value b_i;
       output' \<leftarrow> setitem_rows (s ! output) start stop (s ! res);
       let s = s[output := output'];
       logits' \<leftarrow> setitem_rows (s ! logits) start stop (s ! attn);
       let s = s[logits := logits'];
       attention_loop_st key scale value bias q_length subbatch_size (i + 1) rest (s, output, logits)
     }"

text \<open>
  \<open>attention\<close> called with the tensors at four addresses of the store. \<open>torch.empty\<close>
  allocates the two buffers; the chunks of \<open>query.split\<close> are views of \<open>query\<close>.
\<close>

definition attention_st ::
  "store \<Rightarrow> nat \<Rightarrow> nat \<Rightarrow> real \<Rightarrow> nat \<Rightarrow> nat \<Rightarrow> int option \<Rightarrow>
   (nat list \<Rightarrow> real) \<Rightarrow> (nat list \<Rightarrow> real) \<Rightarrow> (store \<times> nat \<times> nat) option" where
  "attention_st s query key scale value bias subbatch_size junk_o junk_l =
     do {
       q_length \<leftarrow> shape_at (s ! query) (- 2);
       k_length \<leftarrow> shape_at (s ! key) (- 2);
       v_dim \<leftarrow> shape_at (s ! value) (- 1);
       let subbatch_size =
         (case subbatch_size of None \<Rightarrow> int q_length
          | Some c \<Rightarrow> if c = 0 then int q_length else c);
       let batch_shape = take (ndim (s ! query) - 2) (shape (s ! query));
       let (s, output) = alloc s \<lparr>shape = batch_shape @ [q_length, v_dim], elem = junk_o\<rparr>;
       let (s, logits) = alloc s \<lparr>shape = batch_shape @ [q_length, k_length], elem = junk_l\<rparr>;
       chunks \<leftarrow> split (s ! query) subbatch_size (- 2);
       let views = map (\<lambda>i. (query, (\<lambda>t. the (split t subbatch_size (- 2)) ! i)))
                     [0..<length chunks];
       attention_loop_st (whole key) scale (whole value) (whole bias) q_length
         (nat subbatch_size) 0 views (s, output, logits)
     }"

section \<open>Verification\<close>

lemma valid_index_length: "valid_index sh idx \<Longrightarrow> length idx = length sh"
  by (simp add: valid_index_def list_all2_lengthD)

lemma valid_index_nth: "valid_index sh idx \<Longrightarrow> k < length sh \<Longrightarrow> idx ! k < sh ! k"
  by (simp add: valid_index_def list_all2_conv_all_nth)

lemma valid_index_update:
  "valid_index sh idx \<Longrightarrow> j < dim_size sh k \<Longrightarrow> valid_index sh (idx[k := j])"
  by (auto simp: valid_index_def list_all2_conv_all_nth dim_size_def nth_list_update split: if_splits)

lemma broadcast_rev_Nil2: "broadcast_rev ys [] = Some ys"
  by (cases ys) auto

lemma broadcast_rev_expandable:
  "expandable_rev xs ys \<Longrightarrow> broadcast_rev ys xs = Some ys \<and> broadcast_rev xs ys = Some ys"
  by (induction xs ys rule: expandable_rev.induct) (auto simp: broadcast_rev_Nil2)

lemma broadcast_shapes_expandable:
  "expandable b a \<Longrightarrow> broadcast_shapes a b = Some a"
  "expandable b a \<Longrightarrow> broadcast_shapes b a = Some a"
  by (simp_all add: expandable_def broadcast_shapes_def broadcast_rev_expandable)

lemma expandable_rev_refl: "expandable_rev xs xs"
  by (induction xs) auto

lemma expandable_refl: "expandable sh sh"
  by (simp add: expandable_def expandable_rev_refl)

lemma expandable_rev_all2:
  "length xs = length ys \<Longrightarrow> expandable_rev xs ys = list_all2 (\<lambda>x y. x = y \<or> x = 1) xs ys"
  by (induction xs ys rule: list_induct2) auto

lemma expandable_all2:
  "length xs = length ys \<Longrightarrow> expandable xs ys = list_all2 (\<lambda>x y. x = y \<or> x = 1) xs ys"
  by (simp add: expandable_def expandable_rev_all2)

lemma expandable_keepdim: "expandable (sh[k := Suc 0]) sh"
  by (cases "k < length sh") (auto simp: expandable_all2 list_all2_conv_all_nth nth_list_update)

lemma bidx_valid: "valid_index sh idx \<Longrightarrow> bidx sh idx = idx"
  by (auto simp: bidx_def valid_index_def list_all2_conv_all_nth intro!: nth_equalityI)

lemma bidx_keepdim: "valid_index sh idx \<Longrightarrow> bidx (sh[k := Suc 0]) idx = idx[k := 0]"
  by (cases "k < length sh")
     (auto simp: bidx_def valid_index_def list_all2_conv_all_nth nth_list_update intro!: nth_equalityI)




lemma max_keepdim_Some:
  "wrap_dim (ndim x) d = Some k \<Longrightarrow> 0 < dim_size (shape x) k \<Longrightarrow>
   max_keepdim x d = Some \<lparr>shape = (shape x)[k := 1],
      elem = (\<lambda>idx. Max ((\<lambda>j. elem x (idx[k := j])) ` {..<dim_size (shape x) k}))\<rparr>"
  by (simp add: max_keepdim_def Let_def)

lemma binop_expand_right:
  "expandable (shape b) (shape a) \<Longrightarrow>
   binop f a b = Some \<lparr>shape = shape a,
      elem = (\<lambda>idx. f (elem a (bidx (shape a) idx)) (elem b (bidx (shape b) idx)))\<rparr>"
  by (simp add: binop_def broadcast_shapes_expandable)

lemma binop_inplace_expand:
  "expandable (shape b) (shape a) \<Longrightarrow>
   binop_inplace f a b = Some \<lparr>shape = shape a,
      elem = (\<lambda>idx. f (elem a (bidx (shape a) idx)) (elem b (bidx (shape b) idx)))\<rparr>"
  by (simp add: binop_inplace_def binop_expand_right)


lemma softmax_inplace_Some:
  assumes "wrap_dim (ndim x) d = Some k" "0 < dim_size (shape x) k"
  shows "softmax x d True = Some (softmax_inplace_value x k)"
  using assms
  by (simp add: softmax_def max_keepdim_Some binop_inplace_expand expandable_keepdim
      sum_keepdim_def unop_def ndim_def Let_def softmax_inplace_value_def)

lemma bidx_valid_update:
  "valid_index sh idx \<Longrightarrow> j < dim_size sh k \<Longrightarrow> bidx sh (idx[k := j]) = idx[k := j]"
  by (simp add: bidx_valid valid_index_update)

lemma bidx_keepdim_update:
  "valid_index sh idx \<Longrightarrow> j < dim_size sh k \<Longrightarrow> bidx (sh[k := Suc 0]) (idx[k := j]) = idx[k := 0]"
  by (simp add: bidx_keepdim valid_index_update)

lemma softmax_inplace_elem:
  assumes v: "valid_index (shape x) idx" and n: "0 < dim_size (shape x) k"
  shows "elem (softmax_inplace_value x k) idx
         = exp (elem x idx) / (\<Sum>j<dim_size (shape x) k. exp (elem x (idx[k := j])))"
proof -
  let ?n = "dim_size (shape x) k"
  let ?M = "Max ((\<lambda>j. elem x (idx[k := j])) ` {..<?n})"
  let ?m = "\<lambda>i. Max ((\<lambda>j. elem x (i[k := j])) ` {..<?n})"
  let ?e = "\<lambda>i. exp (elem x (bidx (shape x) i) - ?m (bidx ((shape x)[k := Suc 0]) i))"
  have ej: "?e (idx[k := j]) = exp (elem x (idx[k := j]) - ?M)" if "j < ?n" for j
    using v that by (simp add: bidx_valid_update bidx_keepdim_update)
  have e0: "?e idx = exp (elem x idx - ?M)"
    using v by (simp add: bidx_valid bidx_keepdim)
  have s: "(\<Sum>j<?n. ?e ((idx[k := 0])[k := j])) = (\<Sum>j<?n. exp (elem x (idx[k := j]) - ?M))"
    by (rule sum.cong) (use ej in simp_all)
  have e: "elem (softmax_inplace_value x k) idx
      = exp (elem x idx - ?M) / (\<Sum>j<?n. exp (elem x (idx[k := j]) - ?M))"
    using v e0 s
    by (simp add: softmax_inplace_value_def Let_def bidx_valid bidx_keepdim)
  have "(\<Sum>j<?n. exp (elem x (idx[k := j]) - ?M)) = (\<Sum>j<?n. exp (elem x (idx[k := j]))) / exp ?M"
    by (simp add: exp_diff sum_divide_distrib)
  then show ?thesis using e by (simp add: exp_diff)
qed




lemma softmax_Some:
  assumes w: "wrap_dim (ndim x) d = Some k" and n: "0 < dim_size (shape x) k"
  shows "\<exists>y. softmax x d in_place = Some y \<and> shape y = shape x \<and>
           (\<forall>idx. valid_index (shape x) idx \<longrightarrow>
              elem y idx = exp (elem x idx) / (\<Sum>j<dim_size (shape x) k. exp (elem x (idx[k := j]))))"
proof (cases in_place)
  case True
  have "shape (softmax_inplace_value x k) = shape x"
    by (simp add: softmax_inplace_value_def Let_def)
  then show ?thesis
    using True softmax_inplace_Some[OF w n] softmax_inplace_elem[OF _ n] by auto
next
  case False
  then show ?thesis using w by (simp add: softmax_def torch_softmax_def Let_def)
qed

lemma sum_exp_pos: "0 < (n::nat) \<Longrightarrow> 0 < (\<Sum>j<n. exp (f j :: real))"
  by (rule sum_pos) (auto simp: lessThan_empty_iff)

text \<open>
  C7. Wherever the normalised axis is non-empty, \<open>softmax\<close> (in either mode) returns a
  tensor of the input's shape whose values are non-negative and sum to exactly one along
  the axis, and adding to the logits a tensor that is constant along the axis (shape of
  the input with the axis reduced to one) leaves every output value unchanged. Over the
  reals the sum is exactly one, hence within any tolerance.
\<close>

theorem softmax_correct:
  assumes w: "wrap_dim (ndim x) d = Some k" and n: "0 < dim_size (shape x) k"
  shows "\<exists>y. softmax x d in_place = Some y \<and> shape y = shape x \<and>
           (\<forall>idx. valid_index (shape x) idx \<longrightarrow>
              0 \<le> elem y idx \<and> (\<Sum>j<dim_size (shape x) k. elem y (idx[k := j])) = 1) \<and>
           (\<forall>s. shape s = (shape x)[k := 1] \<longrightarrow>
              (\<exists>x' y'. binop (+) x s = Some x' \<and> softmax x' d in_place = Some y' \<and>
                 shape y' = shape y \<and>
                 (\<forall>idx. valid_index (shape x) idx \<longrightarrow> elem y' idx = elem y idx)))"
proof -
  let ?n = "dim_size (shape x) k"
  let ?S = "\<lambda>x idx. \<Sum>j<?n. exp (elem x (idx[k := j]))"
  obtain y where y: "softmax x d in_place = Some y" "shape y = shape x"
    and ye: "\<And>idx. valid_index (shape x) idx \<Longrightarrow> elem y idx = exp (elem x idx) / ?S x idx"
    using softmax_Some[OF w n, of in_place] by blast
  have nonneg: "0 \<le> elem y idx" if "valid_index (shape x) idx" for idx
    using ye[OF that] by (simp add: sum_nonneg)
  have one: "(\<Sum>j<?n. elem y (idx[k := j])) = 1" if v: "valid_index (shape x) idx" for idx
  proof -
    have "(\<Sum>j<?n. elem y (idx[k := j])) = (\<Sum>j<?n. exp (elem x (idx[k := j])) / ?S x idx)"
      by (rule sum.cong) (use v in \<open>simp_all add: ye valid_index_update\<close>)
    also have "\<dots> = ?S x idx / ?S x idx"
      by (rule sum_divide_distrib[symmetric])
    also have "\<dots> = 1"
      using sum_exp_pos[OF n, of "\<lambda>j. elem x (idx[k := j])"] by simp
    finally show ?thesis .
  qed
  have shift: "\<exists>x' y'. binop (+) x s = Some x' \<and> softmax x' d in_place = Some y' \<and>
                 shape y' = shape y \<and>
                 (\<forall>idx. valid_index (shape x) idx \<longrightarrow> elem y' idx = elem y idx)"
    if s: "shape s = (shape x)[k := 1]" for s
  proof -
    define x' where "x' = \<lparr>shape = shape x,
       elem = (\<lambda>idx. elem x (bidx (shape x) idx) + elem s (bidx (shape s) idx))\<rparr>"
    have b: "binop (+) x s = Some x'"
      unfolding x'_def by (rule binop_expand_right) (simp add: s expandable_keepdim)
    have sx: "shape x' = shape x" by (simp add: x'_def)
    have xe: "elem x' idx = elem x idx + elem s (idx[k := 0])" if "valid_index (shape x) idx" for idx
      using that by (simp add: x'_def s bidx_valid bidx_keepdim)
    obtain y' where y': "softmax x' d in_place = Some y'" "shape y' = shape x'"
      and ye': "\<And>idx. valid_index (shape x') idx \<Longrightarrow>
          elem y' idx = exp (elem x' idx) / (\<Sum>j<dim_size (shape x') k. exp (elem x' (idx[k := j])))"
      using softmax_Some[of x' d k in_place] w n by (auto simp: sx ndim_def)
    have "elem y' idx = elem y idx" if v: "valid_index (shape x) idx" for idx
    proof -
      let ?c = "elem s (idx[k := 0])"
      have "(\<Sum>j<?n. exp (elem x' (idx[k := j]))) = (\<Sum>j<?n. exp (elem x (idx[k := j])) * exp ?c)"
        by (rule sum.cong) (use v in \<open>simp_all add: xe valid_index_update exp_add\<close>)
      also have "\<dots> = ?S x idx * exp ?c"
        by (simp add: sum_distrib_right)
      finally have "elem y' idx = (exp (elem x idx) * exp ?c) / (?S x idx * exp ?c)"
        using v by (simp add: ye' sx xe exp_add)
      then show ?thesis using v by (simp add: ye)
    qed
    then show ?thesis using b y' y sx by auto
  qed
  show ?thesis using y nonneg one shift by blast
qed

theorem softmax_correct_witness:
  "wrap_dim (ndim \<lparr>shape = [2], elem = (\<lambda>idx. real (idx ! 0))\<rparr>) (- 1) = Some 0 \<and>
   0 < dim_size (shape \<lparr>shape = [2], elem = (\<lambda>idx. real (idx ! 0))\<rparr>) 0 \<and>
   (\<exists>y. softmax \<lparr>shape = [2], elem = (\<lambda>idx. real (idx ! 0))\<rparr> (- 1) True = Some y \<and>
        shape y = [2] \<and> 0 \<le> elem y [1] \<and> elem y [0] + elem y [1] = 1)"
proof -
  let ?x = "\<lparr>shape = [2], elem = (\<lambda>idx. real (idx ! 0))\<rparr>"
  have w: "wrap_dim (ndim ?x) (- 1) = Some 0" by (simp add: wrap_dim_def ndim_def)
  have n: "0 < dim_size (shape ?x) 0" by (simp add: dim_size_def)
  from softmax_correct[OF w n, of True]
  obtain y where y: "softmax ?x (- 1) True = Some y" "shape y = shape ?x"
    and p: "\<And>idx. valid_index (shape ?x) idx \<Longrightarrow>
              0 \<le> elem y idx \<and> (\<Sum>j<dim_size (shape ?x) 0. elem y (idx[0 := j])) = 1"
    by blast
  have "valid_index (shape ?x) [1]" by (simp add: valid_index_def)
  from p[OF this] have "0 \<le> elem y [1]" "elem y [0] + elem y [1] = 1"
    by (simp_all add: dim_size_def eval_nat_numeral)
  then show ?thesis using w n y by auto
qed

text \<open>
  C6. For a valid axis \<open>d\<close> of \<open>x\<close>: where the axis is non-empty, \<open>softmax\<close> with
  \<open>in_place=True\<close> and with \<open>in_place=False\<close> both return, with the input's shape and
  the same value at every index; where the axis is empty, the in-place mode raises (in
  \<open>torch.max\<close>) while the out-of-place mode returns a tensor of the input's shape.
\<close>

theorem softmax_in_place_equiv:
  assumes w: "wrap_dim (ndim x) d = Some k"
  shows "(0 < dim_size (shape x) k \<longrightarrow>
            (\<exists>y1 y2. softmax x d True = Some y1 \<and> softmax x d False = Some y2 \<and>
               shape y1 = shape x \<and> shape y2 = shape x \<and>
               (\<forall>idx. valid_index (shape x) idx \<longrightarrow> elem y1 idx = elem y2 idx))) \<and>
         (dim_size (shape x) k = 0 \<longrightarrow>
            softmax x d True = None \<and>
            (\<exists>y2. softmax x d False = Some y2 \<and> shape y2 = shape x))"
proof (intro conjI impI)
  assume n: "0 < dim_size (shape x) k"
  show "\<exists>y1 y2. softmax x d True = Some y1 \<and> softmax x d False = Some y2 \<and>
           shape y1 = shape x \<and> shape y2 = shape x \<and>
           (\<forall>idx. valid_index (shape x) idx \<longrightarrow> elem y1 idx = elem y2 idx)"
    using softmax_Some[OF w n, of True] softmax_Some[OF w n, of False] by auto
next
  assume "dim_size (shape x) k = 0"
  then show "softmax x d True = None"
    by (simp add: softmax_def max_keepdim_def w Let_def)
next
  show "\<exists>y2. softmax x d False = Some y2 \<and> shape y2 = shape x"
    by (simp add: softmax_def torch_softmax_def w Let_def)
qed

theorem softmax_in_place_equiv_witness:
  "wrap_dim (ndim \<lparr>shape = [1, 3], elem = (\<lambda>idx. real (idx ! 1))\<rparr>) (- 1) = Some 1 \<and>
   0 < dim_size (shape \<lparr>shape = [1, 3], elem = (\<lambda>idx. real (idx ! 1))\<rparr>) 1 \<and>
   (\<exists>y1 y2. softmax \<lparr>shape = [1, 3], elem = (\<lambda>idx. real (idx ! 1))\<rparr> (- 1) True = Some y1 \<and>
        softmax \<lparr>shape = [1, 3], elem = (\<lambda>idx. real (idx ! 1))\<rparr> (- 1) False = Some y2 \<and>
        elem y1 [0, 2] = elem y2 [0, 2])"
proof -
  let ?x = "\<lparr>shape = [1, 3], elem = (\<lambda>idx. real (idx ! 1))\<rparr>"
  have w: "wrap_dim (ndim ?x) (- 1) = Some 1" by (simp add: wrap_dim_def ndim_def)
  have n: "0 < dim_size (shape ?x) 1" by (simp add: dim_size_def)
  have v: "valid_index (shape ?x) [0, 2]" by (simp add: valid_index_def)
  from softmax_in_place_equiv[OF w] n v show ?thesis using w by blast
qed

theorem softmax_in_place_empty_axis_counterexample:
  "softmax (full [2, 0] 0) (- 1) True = None \<and>
   (\<exists>y. softmax (full [2, 0] 0) (- 1) False = Some y \<and> shape y = [2, 0])"
  by (simp add: softmax_def max_keepdim_def torch_softmax_def wrap_dim_def ndim_def
      dim_size_def full_def Let_def)

lemma bidx_length [simp]: "length (bidx sh idx) = length sh"
  by (simp add: bidx_def)

lemma bidx_nth:
  "p < length sh \<Longrightarrow> length sh \<le> length idx \<Longrightarrow>
   bidx sh idx ! p = (if sh ! p = 1 then 0 else idx ! (p + (length idx - length sh)))"
  by (simp add: bidx_def add.commute)

lemma expandable_rev_iff:
  "expandable_rev xs ys \<longleftrightarrow>
     length xs \<le> length ys \<and> (\<forall>p < length xs. xs ! p = ys ! p \<or> xs ! p = 1)"
proof (induction xs ys rule: expandable_rev.induct)
  case (3 x xs y ys)
  show ?case
    by (auto simp: 3 nth_Cons split: nat.splits)
qed auto

lemma expandable_iff:
  "expandable src dst \<longleftrightarrow>
     length src \<le> length dst \<and>
     (\<forall>p < length src. src ! p = dst ! (p + (length dst - length src)) \<or> src ! p = 1)"
proof -
  have "(\<forall>p<length src. rev src ! p = rev dst ! p \<or> rev src ! p = 1) \<longleftrightarrow>
        (\<forall>p<length src. src ! p = dst ! (p + (length dst - length src)) \<or> src ! p = 1)"
    if le: "length src \<le> length dst"
  proof (intro iffI allI impI)
    fix p assume a: "\<forall>p<length src. rev src ! p = rev dst ! p \<or> rev src ! p = 1" and p: "p < length src"
    let ?q = "length src - Suc p"
    have q: "?q < length src" using p by simp
    have "rev src ! ?q = src ! p" using p by (simp add: rev_nth)
    moreover have "rev dst ! ?q = dst ! (p + (length dst - length src))"
    proof -
      have "length dst - Suc ?q = p + (length dst - length src)" using p le by arith
      then show ?thesis using p le by (simp add: rev_nth)
    qed
    ultimately show "src ! p = dst ! (p + (length dst - length src)) \<or> src ! p = 1"
      using a q by metis
  next
    fix p assume a: "\<forall>p<length src. src ! p = dst ! (p + (length dst - length src)) \<or> src ! p = 1" and p: "p < length src"
    let ?q = "length src - Suc p"
    have q: "?q < length src" using p by simp
    have "rev src ! p = src ! ?q" using p by (simp add: rev_nth)
    moreover have "rev dst ! p = dst ! (?q + (length dst - length src))"
    proof -
      have "length dst - Suc p = ?q + (length dst - length src)" using p le by arith
      then show ?thesis using p le by (simp add: rev_nth)
    qed
    ultimately show "rev src ! p = rev dst ! p \<or> rev src ! p = 1"
      using a q by metis
  qed
  then show ?thesis
    by (auto simp: expandable_def expandable_rev_iff)
qed

lemma label_uniform:
  assumes "\<And>p. p \<in> set ds \<Longrightarrow> fst p = l \<Longrightarrow> snd p = n" and "l \<in> fst ` set ds"
  shows "label_size ds l = n" and "label_ok ds l"
proof -
  have s: "set (label_sizes ds l) = {n}"
    using assms by (auto simp: label_sizes_def image_iff)
  then have ne: "label_sizes ds l \<noteq> []" by auto
  have all: "\<forall>m \<in> set (label_sizes ds l). m = n" using s by auto
  show sz: "label_size ds l = n"
  proof (cases "filter (\<lambda>n. n \<noteq> 1) (label_sizes ds l)")
    case Nil
    then have "\<forall>m \<in> set (label_sizes ds l). m = 1" by (auto simp: filter_empty_conv)
    then have "n = 1" using s by auto
    then show ?thesis using Nil by (simp add: label_size_def)
  next
    case (Cons m ms)
    then have "m \<in> set (filter (\<lambda>n. n \<noteq> 1) (label_sizes ds l))" by simp
    then have "m = n" using all by auto
    then show ?thesis using Cons by (simp add: label_size_def)
  qed
  show "label_ok ds l"
    using ne all sz by (auto simp: label_ok_def list_all_iff)
qed

lemma valid_index_append:
  "length bi = length bs \<Longrightarrow>
   valid_index (bs @ sh) (bi @ idx) \<longleftrightarrow> valid_index bs bi \<and> valid_index sh idx"
  by (simp add: valid_index_def list_all2_append)

lemma valid_index_Cons [simp]:
  "valid_index (n # sh) (i # idx) \<longleftrightarrow> i < n \<and> valid_index sh idx"
  by (simp add: valid_index_def)

lemma valid_index_Nil [simp]: "valid_index [] []"
  by (simp add: valid_index_def)

lemma einsum_id_jd:
  assumes a: "shape a = bs @ [n, d]" and b: "shape b = bs @ [m, d]"
  shows "\<exists>r. einsum (Dots ''id'') (Dots ''jd'') ''ij'' a b = Some r \<and> shape r = bs @ [n, m] \<and>
           (\<forall>bi i j. valid_index bs bi \<and> i < n \<and> j < m \<longrightarrow>
              elem r (bi @ [i, j]) = (\<Sum>v<d. elem a (bi @ [i, v]) * elem b (bi @ [j, v])))"
proof -
  let ?ds = "[(CHR ''i'', n), (CHR ''d'', d), (CHR ''j'', m), (CHR ''d'', d)]"
  have da: "dots_shape (Dots ''id'') (bs @ [n, d]) = bs" "dots_shape (Dots ''jd'') (bs @ [m, d]) = bs"
    by (simp_all add: dots_shape_def)
  have la: "label_dims (Dots ''id'') (bs @ [n, d]) = [(CHR ''i'', n), (CHR ''d'', d)]"
    "label_dims (Dots ''jd'') (bs @ [m, d]) = [(CHR ''j'', m), (CHR ''d'', d)]"
    by (simp_all add: label_dims_def)
  have sz: "label_size ?ds CHR ''i'' = n" "label_size ?ds CHR ''j'' = m" "label_size ?ds CHR ''d'' = d"
    and ok: "label_ok ?ds CHR ''i''" "label_ok ?ds CHR ''j''" "label_ok ?ds CHR ''d''"
    by (rule label_uniform; force)+
  have bb: "broadcast_shapes bs bs = Some bs"
    by (simp add: broadcast_shapes_expandable expandable_refl)
  let ?r = "the (einsum (Dots ''id'') (Dots ''jd'') ''ij'' a b)"
  have e: "einsum (Dots ''id'') (Dots ''jd'') ''ij'' a b = Some ?r" and sh: "shape ?r = bs @ [n, m]"
    by (simp_all add: einsum_def a b da la bb sz ok Let_def)
  have el: "elem ?r (bi @ [i, j]) = (\<Sum>v<d. elem a (bi @ [i, v]) * elem b (bi @ [j, v]))"
    if v: "valid_index bs bi" and i: "i < n" and j: "j < m" for bi i j
  proof -
    have l: "length bi = length bs" using v by (rule valid_index_length)
    have i0: "n = Suc 0 \<Longrightarrow> i = 0" and j0: "m = Suc 0 \<Longrightarrow> j = 0" using i j by auto
    show ?thesis
      using v l i0 j0
      by (auto simp add: einsum_def a b da la bb sz ok Let_def operand_index_def bidx_valid
          intro!: sum.cong)
  qed
  show ?thesis using e sh el by blast
qed

lemma einsum_ij_jd:
  assumes a: "shape a = bs @ [n, m]" and b: "shape b = bs @ [m, dv]"
  shows "\<exists>r. einsum (Dots ''ij'') (Dots ''jd'') ''id'' a b = Some r \<and> shape r = bs @ [n, dv] \<and>
           (\<forall>bi i e. valid_index bs bi \<and> i < n \<and> e < dv \<longrightarrow>
              elem r (bi @ [i, e]) = (\<Sum>j<m. elem a (bi @ [i, j]) * elem b (bi @ [j, e])))"
proof -
  let ?ds = "[(CHR ''i'', n), (CHR ''j'', m), (CHR ''j'', m), (CHR ''d'', dv)]"
  have da: "dots_shape (Dots ''ij'') (bs @ [n, m]) = bs" "dots_shape (Dots ''jd'') (bs @ [m, dv]) = bs"
    by (simp_all add: dots_shape_def)
  have la: "label_dims (Dots ''ij'') (bs @ [n, m]) = [(CHR ''i'', n), (CHR ''j'', m)]"
    "label_dims (Dots ''jd'') (bs @ [m, dv]) = [(CHR ''j'', m), (CHR ''d'', dv)]"
    by (simp_all add: label_dims_def)
  have sz: "label_size ?ds CHR ''i'' = n" "label_size ?ds CHR ''j'' = m" "label_size ?ds CHR ''d'' = dv"
    and ok: "label_ok ?ds CHR ''i''" "label_ok ?ds CHR ''j''" "label_ok ?ds CHR ''d''"
    by (rule label_uniform; force)+
  have bb: "broadcast_shapes bs bs = Some bs"
    by (simp add: broadcast_shapes_expandable expandable_refl)
  let ?r = "the (einsum (Dots ''ij'') (Dots ''jd'') ''id'' a b)"
  have e: "einsum (Dots ''ij'') (Dots ''jd'') ''id'' a b = Some ?r" and sh: "shape ?r = bs @ [n, dv]"
    by (simp_all add: einsum_def a b da la bb sz ok Let_def)
  have el: "elem ?r (bi @ [i, e]) = (\<Sum>j<m. elem a (bi @ [i, j]) * elem b (bi @ [j, e]))"
    if v: "valid_index bs bi" and i: "i < n" and j: "e < dv" for bi i e
  proof -
    have l: "length bi = length bs" using v by (rule valid_index_length)
    have i0: "n = Suc 0 \<Longrightarrow> i = 0" and j0: "dv = Suc 0 \<Longrightarrow> e = 0" using i j by auto
    show ?thesis
      using v l i0 j0
      by (auto simp add: einsum_def a b da la bb sz ok Let_def operand_index_def bidx_valid
          intro!: sum.cong)
  qed
  show ?thesis using e sh el by blast
qed

lemma bidx_expandable_valid:
  assumes e: "expandable sh dst" and v: "valid_index dst idx"
  shows "valid_index sh (bidx sh idx)"
proof -
  have l: "length idx = length dst" using v by (rule valid_index_length)
  have le: "length sh \<le> length dst"
    and d: "\<And>p. p < length sh \<Longrightarrow> sh ! p = dst ! (p + (length dst - length sh)) \<or> sh ! p = 1"
    using e by (auto simp: expandable_iff)
  show ?thesis
    unfolding valid_index_def list_all2_conv_all_nth
  proof (intro conjI allI impI)
    show "length (bidx sh idx) = length sh" by simp
  next
    fix p assume "p < length (bidx sh idx)"
    then have p: "p < length sh" by simp
    have "idx ! (p + (length dst - length sh)) < dst ! (p + (length dst - length sh))"
      using valid_index_nth[OF v, of "p + (length dst - length sh)"] p le by simp
    then show "bidx sh idx ! p < sh ! p"
      using d[OF p] p le l by (auto simp: bidx_nth)
  qed
qed

lemma private_attention_rows:
  assumes q: "shape q = bs @ [len, d]" and k: "shape key = bs @ [nk, d]"
    and v: "shape val = bs @ [nk, dv]" and b: "expandable (shape b) (bs @ [len, nk])"
    and nk: "0 < nk"
  shows "\<exists>res attn. private_attention q key scale val b = Some (res, attn) \<and>
           shape res = bs @ [len, dv] \<and> shape attn = bs @ [len, nk] \<and>
           (\<forall>bi i j. valid_index bs bi \<and> i < len \<and> j < nk \<longrightarrow>
              elem attn (bi @ [i, j]) = att_weight q key scale b d nk bi i j) \<and>
           (\<forall>bi i e. valid_index bs bi \<and> i < len \<and> e < dv \<longrightarrow>
              elem res (bi @ [i, e]) = att_out q key scale val b d nk bi i e)"
proof -
  let ?qs = "unop (\<lambda>v. v * scale) q"
  have qs: "shape ?qs = bs @ [len, d]" by (simp add: unop_def q)
  obtain lg where lg: "einsum (Dots ''id'') (Dots ''jd'') ''ij'' ?qs key = Some lg"
    "shape lg = bs @ [len, nk]"
    and lge: "\<And>bi i j. valid_index bs bi \<Longrightarrow> i < len \<Longrightarrow> j < nk \<Longrightarrow>
       elem lg (bi @ [i, j]) = (\<Sum>v<d. elem ?qs (bi @ [i, v]) * elem key (bi @ [j, v]))"
    using einsum_id_jd[OF qs k] by blast
  define x where "x = \<lparr>shape = shape lg,
     elem = (\<lambda>idx. elem lg (bidx (shape lg) idx) + elem b (bidx (shape b) idx))\<rparr>"
  have bx: "binop (+) lg b = Some x"
    unfolding x_def by (rule binop_expand_right) (simp add: lg b)
  have sx: "shape x = bs @ [len, nk]" by (simp add: x_def lg)
  have xe: "elem x (bi @ [i, j]) = att_logit q key scale b d bi i j"
    if "valid_index bs bi" "i < len" "j < nk" for bi i j
  proof -
    have "valid_index (shape lg) (bi @ [i, j])"
      using that by (simp add: lg valid_index_append valid_index_length)
    then show ?thesis
      using that by (simp add: x_def bidx_valid lge att_logit_def unop_def)
  qed
  have w: "wrap_dim (ndim x) (- 1) = Some (Suc (length bs))"
    by (simp add: wrap_dim_def ndim_def sx)
  have n: "0 < dim_size (shape x) (Suc (length bs))"
    using nk by (simp add: dim_size_def sx nth_append)
  have ds: "dim_size (shape x) (Suc (length bs)) = nk"
    by (simp add: dim_size_def sx nth_append)
  obtain attn where at: "softmax x (- 1) True = Some attn" "shape attn = shape x"
    and ate: "\<And>idx. valid_index (shape x) idx \<Longrightarrow>
       elem attn idx = exp (elem x idx) / (\<Sum>j<nk. exp (elem x (idx[Suc (length bs) := j])))"
    using softmax_Some[OF w n, of True] unfolding ds by blast
  have ae: "elem attn (bi @ [i, j]) = att_weight q key scale b d nk bi i j"
    if t: "valid_index bs bi" "i < len" "j < nk" for bi i j
  proof -
    have l: "length bi = length bs" using t(1) by (rule valid_index_length)
    have vi: "valid_index (shape x) (bi @ [i, j])"
      using t by (simp add: sx valid_index_append l)
    have up: "(bi @ [i, j])[Suc (length bs) := j'] = bi @ [i, j']" for j'
      using l by (simp add: list_update_append)
    have "(\<Sum>j'<nk. exp (elem x ((bi @ [i, j])[Suc (length bs) := j'])))
        = (\<Sum>j'<nk. exp (att_logit q key scale b d bi i j'))"
      by (rule sum.cong) (use t in \<open>simp_all add: up xe\<close>)
    then show ?thesis
      using ate[OF vi] t by (simp add: xe att_weight_def)
  qed
  have sa: "shape attn = bs @ [len, nk]" using at sx by simp
  obtain res where r: "einsum (Dots ''ij'') (Dots ''jd'') ''id'' attn val = Some res"
    "shape res = bs @ [len, dv]"
    and re: "\<And>bi i e. valid_index bs bi \<Longrightarrow> i < len \<Longrightarrow> e < dv \<Longrightarrow>
       elem res (bi @ [i, e]) = (\<Sum>j<nk. elem attn (bi @ [i, j]) * elem val (bi @ [j, e]))"
    using einsum_ij_jd[OF sa v] by blast
  have ro: "elem res (bi @ [i, e]) = att_out q key scale val b d nk bi i e"
    if t: "valid_index bs bi" "i < len" "e < dv" for bi i e
    unfolding att_out_def re[OF t]
    by (rule sum.cong) (use t in \<open>simp_all add: ae\<close>)
  have "private_attention q key scale val b = Some (res, attn)"
    by (simp add: private_attention_def lg bx at r)
  then show ?thesis using r(2) sa ae ro by blast
qed


lemma n_chunks_pos: "0 < n_chunks n c"
  by (auto simp: n_chunks_def)

lemma n_chunks_cover: "1 \<le> c \<or> n = 0 \<Longrightarrow> n \<le> n_chunks n c * c"
proof (cases "c = 0")
  case True
  assume "1 \<le> c \<or> n = 0"
  then show ?thesis using True by simp
next
  case False
  have "(n + c - 1) div c * c + (n + c - 1) mod c = n + c - 1" by simp
  moreover have "(n + c - 1) mod c < c" using False by simp
  ultimately have "n \<le> (n + c - 1) div c * c" by linarith
  also have "\<dots> \<le> n_chunks n c * c"
    using False by (simp add: n_chunks_def)
  finally show ?thesis .
qed

lemma n_chunks_below:
  assumes "i < n_chunks n c - 1"
  shows "(i + 1) * c < n"
proof -
  have c: "c \<noteq> 0" using assms by (auto simp: n_chunks_def split: if_splits)
  have i: "i + 1 < (n + c - 1) div c"
    using assms c by (auto simp: n_chunks_def split: if_splits)
  have "(n + c - 1) div c * c \<le> n + c - 1" by simp
  moreover have "(i + 2) * c \<le> (n + c - 1) div c * c"
    using i by (intro mult_le_mono1) simp
  ultimately have "(i + 2) * c \<le> n + c - 1" by linarith
  then show ?thesis using c by (simp add: algebra_simps)
qed

lemma chunk_start_le:
  assumes "1 \<le> c \<or> n = 0" "i < n_chunks n c"
  shows "i * c \<le> n"
proof (cases "i = 0")
  case False
  then have "i - 1 < n_chunks n c - 1" using assms by simp
  from n_chunks_below[OF this] False show ?thesis by simp
qed simp

lemma chunk_len_eq:
  assumes c: "1 \<le> c \<or> n = 0" and i: "i < n_chunks n c"
  shows "chunk_len n c i = min ((i + 1) * c) n - min (i * c) n"
proof (cases "i < n_chunks n c - 1")
  case True
  from n_chunks_below[OF True] have "(i + 1) * c < n" .
  then show ?thesis using True by (simp add: chunk_len_def min_def)
next
  case False
  then have e: "i = n_chunks n c - 1" using i by simp
  have "n \<le> (i + 1) * c" using n_chunks_cover[OF c] e n_chunks_pos[of n c] by simp
  moreover have "i * c \<le> n" using chunk_start_le[OF c i] .
  ultimately show ?thesis using False e by (simp add: chunk_len_def min_def mult.commute)
qed

lemma split_rows:
  assumes q: "shape q = bs @ [n, d]" and c: "1 \<le> c \<or> n = 0"
  shows "split q (int c) (- 2) =
           Some (map (\<lambda>i. narrow (length bs) (i * c) (chunk_len n c i) q) [0..<n_chunks n c])"
proof -
  have w: "wrap_dim (Suc (Suc (length bs))) (- 2) = Some (length bs)"
    by (simp add: wrap_dim_def)
  have nz: "\<not> (int c = 0 \<and> n \<noteq> 0)" using c by auto
  show ?thesis
    using nz
    by (simp add: split_def w q ndim_def Let_def nth_append n_chunks_def chunk_len_def cong: map_cong)
qed

lemma expandable_drop: "expandable (drop n sh) sh"
  by (auto simp: expandable_iff add.commute)

lemma expandable_dropWhile: "expandable (dropWhile P sh) sh"
  by (simp add: dropWhile_eq_drop expandable_drop)

lemma bias_rows:
  assumes eb: "expandable (shape bias) (bs @ [nq, nk])" and r2: "2 \<le> ndim bias"
  shows "shape bias ! (ndim bias - 2) = nq \<or> shape bias ! (ndim bias - 2) = 1"
proof -
  have le: "ndim bias \<le> length bs + 2" using eb by (simp add: expandable_iff ndim_def)
  have "ndim bias - 2 + (length (bs @ [nq, nk]) - length (shape bias)) = length bs"
    using le r2 by (simp add: ndim_def)
  moreover have "ndim bias - 2 < length (shape bias)" using r2 by (simp add: ndim_def)
  ultimately show ?thesis
    using eb unfolding expandable_iff by (metis nth_append_length)
qed

lemma chunk_bias:
  assumes eb: "expandable (shape bias) (bs @ [nq, nk])" and r2: "2 \<le> ndim bias"
    and sl: "s + len \<le> nq"
    and bi_def: "b_i = (if shape bias ! (ndim bias - 2) \<noteq> nq then bias
                        else narrow (ndim bias - 2) s len bias)"
  shows "expandable (shape b_i) (bs @ [len, nk])"
    and "\<And>bi i j. length bi = length bs \<Longrightarrow> i < len \<Longrightarrow>
           elem b_i (bidx (shape b_i) (bi @ [i, j])) = elem bias (bidx (shape bias) (bi @ [s + i, j]))"
proof -
  let ?sh = "shape bias"
  let ?kb = "ndim bias - 2"
  define off where "off = length bs + 2 - length ?sh"
  have le: "length ?sh \<le> length bs + 2" using eb by (simp add: expandable_iff)
  have l2: "2 \<le> length ?sh" using r2 by (simp add: ndim_def)
  have offs: "Suc (Suc (length bs)) - length ?sh = off" by (simp add: off_def)
  have kb: "?kb < length ?sh" "?kb = length ?sh - 2" using l2 by (simp_all add: ndim_def)
  have pos: "p + off = length bs \<longleftrightarrow> p = length ?sh - 2" if "p < length ?sh" for p
    using that le l2 unfolding off_def by arith
  have ex: "?sh ! p = (bs @ [nq, nk]) ! (p + off) \<or> ?sh ! p = 1" if "p < length ?sh" for p
    using eb that by (simp add: expandable_iff offs)
  have m: "?sh ! ?kb = nq \<or> ?sh ! ?kb = 1" using bias_rows[OF eb r2] .
  have other: "(bs @ [x, nk]) ! (p + off) = (bs @ [nq, nk]) ! (p + off)"
    if "p < length ?sh" "p \<noteq> length ?sh - 2" for p x
    using pos[OF that(1)] that(2) by (auto simp: nth_append nth_Cons split: nat.splits)
  have row: "(bs @ [x, nk]) ! (length ?sh - 2 + off) = x" for x
    using pos[of "length ?sh - 2"] l2 by (simp add: nth_append)
  show "expandable (shape b_i) (bs @ [len, nk])"
  proof (cases "?sh ! ?kb \<noteq> nq")
    case True
    then have one: "?sh ! ?kb = 1" using m by auto
    have "?sh ! p = (bs @ [len, nk]) ! (p + off) \<or> ?sh ! p = 1" if p: "p < length ?sh" for p
    proof (cases "p = length ?sh - 2")
      case True then show ?thesis using one kb by simp
    next
      case False then show ?thesis using ex[OF p] other[OF p False, of len] by simp
    qed
    then show ?thesis using True le by (simp add: bi_def expandable_iff offs)
  next
    case False
    have "?sh[?kb := len] ! p = (bs @ [len, nk]) ! (p + off) \<or> ?sh[?kb := len] ! p = 1"
      if p: "p < length ?sh" for p
    proof (cases "p = length ?sh - 2")
      case True then show ?thesis using kb row[of len] by simp
    next
      case False then show ?thesis using ex[OF p] other[OF p False, of len] kb by simp
    qed
    then show ?thesis using False le by (simp add: bi_def expandable_iff narrow_def offs)
  qed
  fix bi :: "nat list" and i j
  assume l: "length bi = length bs" and i: "i < len"
  have li: "Suc (Suc (length bs)) - length ?sh = off" by (rule offs)
  have lle: "length ?sh \<le> length (bi @ [x, j])" for x using l le by simp
  have nth_other: "(bi @ [x, j]) ! (p + off) = (bi @ [y, j]) ! (p + off)"
    if "p < length ?sh" "p \<noteq> length ?sh - 2" for p x y
    using pos[OF that(1)] that(2) l by (auto simp: nth_append nth_Cons split: nat.splits)
  have nth_row: "(bi @ [x, j]) ! (length ?sh - 2 + off) = x" for x
    using pos[of "length ?sh - 2"] l2 l by (simp add: nth_append)
  show "elem b_i (bidx (shape b_i) (bi @ [i, j])) = elem bias (bidx ?sh (bi @ [s + i, j]))"
  proof (cases "?sh ! ?kb \<noteq> nq")
    case True
    then have one: "?sh ! ?kb = 1" using m by auto
    have "bidx ?sh (bi @ [i, j]) = bidx ?sh (bi @ [s + i, j])"
    proof (rule nth_equalityI)
      fix p assume "p < length (bidx ?sh (bi @ [i, j]))"
      then have p: "p < length ?sh" by simp
      show "bidx ?sh (bi @ [i, j]) ! p = bidx ?sh (bi @ [s + i, j]) ! p"
      proof (cases "p = length ?sh - 2")
        case True then show ?thesis using one kb p lle by (simp add: bidx_nth)
      next
        case False
        then show ?thesis
          using p lle nth_other[OF p False, of i "s + i"] by (simp add: bidx_nth li l)
      qed
    qed simp
    then show ?thesis using True by (simp add: bi_def)
  next
    case False
    then have nq: "?sh ! ?kb = nq" by simp
    let ?X = "bidx (?sh[?kb := len]) (bi @ [i, j])"
    have "?X[?kb := ?X ! ?kb + s] = bidx ?sh (bi @ [s + i, j])"
    proof (rule nth_equalityI)
      fix p assume "p < length (?X[?kb := ?X ! ?kb + s])"
      then have p: "p < length ?sh" by simp
      show "?X[?kb := ?X ! ?kb + s] ! p = bidx ?sh (bi @ [s + i, j]) ! p"
      proof (cases "p = length ?sh - 2")
        case True
        have "?X ! ?kb = i"
          using kb lle[of i] i nth_row[of i] by (simp add: bidx_nth li l)
        moreover have "bidx ?sh (bi @ [s + i, j]) ! ?kb = s + i"
          using kb lle[of "s + i"] i sl nq nth_row[of "s + i"] by (simp add: bidx_nth li l)
        ultimately show ?thesis using True kb by simp
      next
        case False
        then show ?thesis
          using p lle kb nth_other[OF p False, of i "s + i"] by (simp add: bidx_nth li l)
      qed
    qed simp
    then show ?thesis using False by (simp add: bi_def narrow_def)
  qed
qed

lemma setitem_rows_chunk:
  assumes x: "shape x = bs @ [n, w]" and v: "shape v = bs @ [len, w]"
    and s: "start \<le> n" and len: "len = min stop n - start"
  shows "\<exists>x'. setitem_rows x start stop v = Some x' \<and> shape x' = bs @ [n, w] \<and>
           (\<forall>bi r e. valid_index bs bi \<and> r < n \<and> e < w \<longrightarrow>
              elem x' (bi @ [r, e]) =
                (if start \<le> r \<and> r < stop then elem v (bi @ [r - start, e]) else elem x (bi @ [r, e])))"
proof -
  have view: "bs @ [min stop n - start, w] = shape v"
    by (simp add: v len)
  have "expandable (dropWhile (\<lambda>m. m = 1) (shape v)) (shape v)"
    by (rule expandable_dropWhile)
  then have ex: "expandable (dropWhile (\<lambda>m. m = 1) (shape v)) ((shape x)[ndim x - 2 := min stop n - min start n])"
    using s by (simp add: x ndim_def view[symmetric] min_absorb1 list_update_append)
  let ?x' = "\<lparr>shape = shape x,
       elem = (\<lambda>idx. if start \<le> idx ! length bs \<and> idx ! length bs < min stop n
                      then elem v (bidx (shape v) (idx[length bs := idx ! length bs - start]))
                      else elem x idx)\<rparr>"
  have "setitem_rows x start stop v = Some ?x'"
    using ex s by (simp add: setitem_rows_def Let_def ndim_def x min_absorb1 nth_append cong: if_cong)
  moreover have "elem ?x' (bi @ [r, e]) =
       (if start \<le> r \<and> r < stop then elem v (bi @ [r - start, e]) else elem x (bi @ [r, e]))"
    if t: "valid_index bs bi" "r < n" "e < w" for bi r e
  proof -
    have l: "length bi = length bs" using t(1) by (rule valid_index_length)
    have "valid_index (shape v) (bi @ [r - start, e])" if "start \<le> r" "r < stop"
      using t that l by (simp add: v valid_index_append len)
    then show ?thesis
      using l t by (auto simp: nth_append list_update_append bidx_valid)
  qed
  ultimately show ?thesis using x by auto
qed

lemma att_chunk:
  assumes l: "length bi = length bs"
    and b: "elem b_i (bidx (shape b_i) (bi @ [i, j])) = elem bias (bidx (shape bias) (bi @ [s + i, j]))"
  shows "att_logit (narrow (length bs) s len query) key scale b_i d bi i j
         = att_logit query key scale bias d bi (s + i) j"
  using l b by (simp add: att_logit_def narrow_def list_update_append nth_append add.commute)

lemma shape_at_m2: "2 \<le> ndim x \<Longrightarrow> shape_at x (- 2) = Some (shape x ! (ndim x - 2))"
  by (auto simp: shape_at_def Let_def nat_diff_distrib' intro!: arg_cong[where f = "nth (shape x)"])

lemma attention_loop_rows:
  assumes q: "shape query = bs @ [nq, d]" and k: "shape key = bs @ [nk, d]"
    and v: "shape val = bs @ [nk, dv]"
    and eb: "expandable (shape bias) (bs @ [nq, nk])" and r2: "2 \<le> ndim bias"
    and nk: "0 < nk" and c: "1 \<le> c \<or> nq = 0"
    and i: "i \<le> n_chunks nq c"
    and so: "shape out = bs @ [nq, dv]" and sl: "shape lg = bs @ [nq, nk]"
  shows "\<exists>out' lg'.
           attention_loop key scale val bias nq c i
             (map (\<lambda>i. narrow (length bs) (i * c) (chunk_len nq c i) query) [i..<n_chunks nq c])
             (out, lg) = Some (out', lg') \<and>
           shape out' = bs @ [nq, dv] \<and> shape lg' = bs @ [nq, nk] \<and>
           (\<forall>bi r e. valid_index bs bi \<and> r < nq \<and> e < dv \<longrightarrow>
              elem out' (bi @ [r, e]) =
                (if i * c \<le> r then att_out query key scale val bias d nk bi r e
                 else elem out (bi @ [r, e]))) \<and>
           (\<forall>bi r j. valid_index bs bi \<and> r < nq \<and> j < nk \<longrightarrow>
              elem lg' (bi @ [r, j]) =
                (if i * c \<le> r then att_weight query key scale bias d nk bi r j
                 else elem lg (bi @ [r, j])))"
  using i so sl
proof (induction "n_chunks nq c - i" arbitrary: i out lg)
  case 0
  then have e: "i = n_chunks nq c" by simp
  have "nq \<le> i * c" using n_chunks_cover[OF c] e by simp
  then show ?case using 0 e by auto
next
  case (Suc m)
  let ?num = "n_chunks nq c"
  let ?chunk = "\<lambda>i. narrow (length bs) (i * c) (chunk_len nq c i) query"
  let ?start = "i * c" and ?stop = "(i + 1) * c"
  let ?len = "chunk_len nq c i"
  have il: "i < ?num" using Suc.hyps(2) by simp
  have upt: "[i..<?num] = i # [Suc i..<?num]" using il by (simp add: upt_conv_Cons)
  have st: "?start \<le> nq" using chunk_start_le[OF c il] .
  have len: "?len = min ?stop nq - ?start"
    using chunk_len_eq[OF c il] st by (simp add: min_absorb1)
  have sle: "?start + ?len \<le> nq" using len st by simp
  let ?m = "shape bias ! (ndim bias - 2)"
  define b_i where "b_i = (if ?m \<noteq> nq then bias else narrow (ndim bias - 2) ?start ?len bias)"
  have gb: "(if ?m \<noteq> nq then Some bias else getitem_rows bias ?start ?stop) = Some b_i"
    using r2 st len by (auto simp: b_i_def getitem_rows_def Let_def min_absorb1)
  have be: "expandable (shape b_i) (bs @ [?len, nk])"
    and bel: "\<And>bi i' j. length bi = length bs \<Longrightarrow> i' < ?len \<Longrightarrow>
       elem b_i (bidx (shape b_i) (bi @ [i', j])) = elem bias (bidx (shape bias) (bi @ [?start + i', j]))"
    using chunk_bias[OF eb r2 sle b_i_def] by blast+
  have sq: "shape (?chunk i) = bs @ [?len, d]"
    by (simp add: narrow_def q list_update_append)
  obtain res attn where pa: "private_attention (?chunk i) key scale val b_i = Some (res, attn)"
    and sr: "shape res = bs @ [?len, dv]" and sa: "shape attn = bs @ [?len, nk]"
    and ae: "\<And>bi i' j. valid_index bs bi \<Longrightarrow> i' < ?len \<Longrightarrow> j < nk \<Longrightarrow>
       elem attn (bi @ [i', j]) = att_weight (?chunk i) key scale b_i d nk bi i' j"
    and re: "\<And>bi i' e. valid_index bs bi \<Longrightarrow> i' < ?len \<Longrightarrow> e < dv \<Longrightarrow>
       elem res (bi @ [i', e]) = att_out (?chunk i) key scale val b_i d nk bi i' e"
    using private_attention_rows[OF sq k v be nk, of scale] by blast
  have lgt: "att_logit (?chunk i) key scale b_i d bi i' j = att_logit query key scale bias d bi (?start + i') j"
    if "valid_index bs bi" "i' < ?len" for bi i' j
    using att_chunk[OF valid_index_length[OF that(1)] bel[OF valid_index_length[OF that(1)] that(2)]] .
  have wt: "att_weight (?chunk i) key scale b_i d nk bi i' j = att_weight query key scale bias d nk bi (?start + i') j"
    if "valid_index bs bi" "i' < ?len" for bi i' j
    using that by (simp add: att_weight_def lgt)
  have ot: "att_out (?chunk i) key scale val b_i d nk bi i' e = att_out query key scale val bias d nk bi (?start + i') e"
    if "valid_index bs bi" "i' < ?len" for bi i' e
    using that by (simp add: att_out_def wt)
  obtain out1 where o1: "setitem_rows out ?start ?stop res = Some out1" "shape out1 = bs @ [nq, dv]"
    and o1e: "\<And>bi r e. valid_index bs bi \<Longrightarrow> r < nq \<Longrightarrow> e < dv \<Longrightarrow>
       elem out1 (bi @ [r, e]) =
         (if ?start \<le> r \<and> r < ?stop then elem res (bi @ [r - ?start, e]) else elem out (bi @ [r, e]))"
    using setitem_rows_chunk[OF Suc.prems(2) sr st len] by blast
  obtain lg1 where l1: "setitem_rows lg ?start ?stop attn = Some lg1" "shape lg1 = bs @ [nq, nk]"
    and l1e: "\<And>bi r j. valid_index bs bi \<Longrightarrow> r < nq \<Longrightarrow> j < nk \<Longrightarrow>
       elem lg1 (bi @ [r, j]) =
         (if ?start \<le> r \<and> r < ?stop then elem attn (bi @ [r - ?start, j]) else elem lg (bi @ [r, j]))"
    using setitem_rows_chunk[OF Suc.prems(3) sa st len] by blast
  have m': "m = ?num - Suc i" using Suc.hyps(2) by simp
  have i': "Suc i \<le> ?num" using il by simp
  obtain out' lg' where
    lp: "attention_loop key scale val bias nq c (Suc i) (map ?chunk [Suc i..<?num]) (out1, lg1) = Some (out', lg')"
    and so': "shape out' = bs @ [nq, dv]" and sl': "shape lg' = bs @ [nq, nk]"
    and oe: "\<And>bi r e. valid_index bs bi \<Longrightarrow> r < nq \<Longrightarrow> e < dv \<Longrightarrow>
       elem out' (bi @ [r, e]) =
         (if Suc i * c \<le> r then att_out query key scale val bias d nk bi r e else elem out1 (bi @ [r, e]))"
    and le: "\<And>bi r j. valid_index bs bi \<Longrightarrow> r < nq \<Longrightarrow> j < nk \<Longrightarrow>
       elem lg' (bi @ [r, j]) =
         (if Suc i * c \<le> r then att_weight query key scale bias d nk bi r j else elem lg1 (bi @ [r, j]))"
    using Suc.hyps(1)[OF m' i' o1(2) l1(2)] by blast
  have step: "attention_loop key scale val bias nq c i (map ?chunk [i..<?num]) (out, lg) = Some (out', lg')"
    using lp
    by (simp only: upt list.map attention_loop.simps Let_def shape_at_m2[OF r2] gb pa o1 l1
        Option.bind.simps prod.case Suc_eq_plus1)
  have inr: "r - ?start < ?len" if "?start \<le> r" "r < ?stop" "r < nq" for r
    using that len by simp
  have fo: "elem out' (bi @ [r, e]) =
      (if ?start \<le> r then att_out query key scale val bias d nk bi r e else elem out (bi @ [r, e]))"
    if t: "valid_index bs bi" "r < nq" "e < dv" for bi r e
  proof (cases "Suc i * c \<le> r")
    case True
    then have "?start \<le> r" by simp
    then show ?thesis using oe[OF t] True by simp
  next
    case False
    then have rs: "r < ?stop" by simp
    show ?thesis
    proof (cases "?start \<le> r")
      case True
      have "elem res (bi @ [r - ?start, e]) = att_out query key scale val bias d nk bi r e"
        using re[OF t(1) inr[OF True rs t(2)] t(3)] ot[OF t(1) inr[OF True rs t(2)]] True by simp
      then show ?thesis using oe[OF t] o1e[OF t] False True rs by simp
    next
      case F: False
      then show ?thesis using oe[OF t] o1e[OF t] False by simp
    qed
  qed
  have fl: "elem lg' (bi @ [r, j]) =
      (if ?start \<le> r then att_weight query key scale bias d nk bi r j else elem lg (bi @ [r, j]))"
    if t: "valid_index bs bi" "r < nq" "j < nk" for bi r j
  proof (cases "Suc i * c \<le> r")
    case True
    then have "?start \<le> r" by simp
    then show ?thesis using le[OF t] True by simp
  next
    case False
    then have rs: "r < ?stop" by simp
    show ?thesis
    proof (cases "?start \<le> r")
      case True
      have "elem attn (bi @ [r - ?start, j]) = att_weight query key scale bias d nk bi r j"
        using ae[OF t(1) inr[OF True rs t(2)] t(3)] wt[OF t(1) inr[OF True rs t(2)]] True by simp
      then show ?thesis using le[OF t] l1e[OF t] False True rs by simp
    next
      case F: False
      then show ?thesis using le[OF t] l1e[OF t] False by simp
    qed
  qed
  show ?case using step so' sl' fo fl by blast
qed

lemma shape_at_m1: "1 \<le> ndim x \<Longrightarrow> shape_at x (- 1) = Some (shape x ! (ndim x - 1))"
  by (auto simp: shape_at_def Let_def nat_diff_distrib' intro!: arg_cong[where f = "nth (shape x)"])

lemma attention_rows:
  assumes q: "shape query = bs @ [nq, d]" and k: "shape key = bs @ [nk, d]"
    and v: "shape val = bs @ [nk, dv]"
    and eb: "expandable (shape bias) (bs @ [nq, nk])" and r2: "2 \<le> ndim bias"
    and nk: "0 < nk"
    and sub: "subbatch_size = None \<or> (\<exists>c\<ge>0. subbatch_size = Some c)"
  shows "\<exists>out lg. attention query key scale val bias subbatch_size junk_o junk_l = Some (out, lg) \<and>
           shape out = bs @ [nq, dv] \<and> shape lg = bs @ [nq, nk] \<and>
           (\<forall>bi r e. valid_index bs bi \<and> r < nq \<and> e < dv \<longrightarrow>
              elem out (bi @ [r, e]) = att_out query key scale val bias d nk bi r e) \<and>
           (\<forall>bi r j. valid_index bs bi \<and> r < nq \<and> j < nk \<longrightarrow>
              elem lg (bi @ [r, j]) = att_weight query key scale bias d nk bi r j)"
proof -
  define ci where "ci = (case subbatch_size of None \<Rightarrow> int nq
          | Some c \<Rightarrow> if c = 0 then int nq else c)"
  define c where "c = nat ci"
  have ci: "ci = int c" using sub by (auto simp: ci_def c_def)
  have c1: "1 \<le> c \<or> nq = 0" using sub by (auto simp: ci_def c_def)
  have sq: "shape_at query (- 2) = Some nq" "shape_at key (- 2) = Some nk"
    "shape_at val (- 1) = Some dv"
    by (simp_all add: shape_at_m2 shape_at_m1 ndim_def q k v nth_append)
  have bsh: "take (ndim query - 2) (shape query) = bs" by (simp add: ndim_def q)
  let ?out = "\<lparr>shape = bs @ [nq, dv], elem = junk_o\<rparr>"
  let ?lg = "\<lparr>shape = bs @ [nq, nk], elem = junk_l\<rparr>"
  obtain out' lg' where
    lp: "attention_loop key scale val bias nq c 0
           (map (\<lambda>i. narrow (length bs) (i * c) (chunk_len nq c i) query) [0..<n_chunks nq c])
           (?out, ?lg) = Some (out', lg')"
    and so: "shape out' = bs @ [nq, dv]" and sl: "shape lg' = bs @ [nq, nk]"
    and oe: "\<And>bi r e. valid_index bs bi \<Longrightarrow> r < nq \<Longrightarrow> e < dv \<Longrightarrow>
       elem out' (bi @ [r, e]) = att_out query key scale val bias d nk bi r e"
    and le: "\<And>bi r j. valid_index bs bi \<Longrightarrow> r < nq \<Longrightarrow> j < nk \<Longrightarrow>
       elem lg' (bi @ [r, j]) = att_weight query key scale bias d nk bi r j"
    using attention_loop_rows[OF q k v eb r2 nk c1, where i = 0 and out = ?out and lg = ?lg
        and scale = scale] by auto
  have "attention query key scale val bias subbatch_size junk_o junk_l = Some (out', lg')"
    unfolding attention_def
    by (simp only: sq Option.bind.simps Let_def bsh ci_def[symmetric] ci split_rows[OF q c1]
        nat_int lp)
  then show ?thesis using so sl oe le by blast
qed

lemma valid_index_rows:
  assumes "valid_index (bs @ [n, w]) idx"
  obtains bi r e where "idx = bi @ [r, e]" "valid_index bs bi" "r < n" "e < w"
proof -
  have l: "length idx = length bs + 2" using valid_index_length[OF assms] by simp
  let ?bi = "take (length bs) idx"
  let ?rest = "drop (length bs) idx"
  have "length ?rest = 2" using l by simp
  then obtain r e where re: "?rest = [r, e]"
    by (metis (no_types, opaque_lifting) One_nat_def Suc_1 length_0_conv length_Suc_conv)
  have idx: "idx = ?bi @ [r, e]" using re by (metis append_take_drop_id)
  have "valid_index (bs @ [n, w]) (?bi @ [r, e])" using assms idx by simp
  then have "valid_index bs ?bi \<and> valid_index [n, w] [r, e]"
    using l by (subst (asm) valid_index_append) simp_all
  then show ?thesis using that idx by simp
qed

text \<open>
  C1. For query, key and value with the same leading dimensions, a bias of at least two
  dimensions that broadcasts to the logits, at least one key, and every chunk size
  \<open>c \<ge> 1\<close> (dividing the query length or not): \<open>attention\<close> with \<open>subbatch_size = c\<close>
  and with \<open>subbatch_size = n_q\<close> both return, with the same shapes and, at every index,
  the same output and the same attention weights, whatever the uninitialised buffers
  held. Over the reals the values are equal, hence equal up to rounding.
\<close>

theorem attention_chunk_invariance:
  assumes q: "shape query = bs @ [nq, d]" and k: "shape key = bs @ [nk, d]"
    and v: "shape val = bs @ [nk, dv]"
    and eb: "expandable (shape bias) (bs @ [nq, nk])" and r2: "2 \<le> ndim bias"
    and nk: "0 < nk" and c: "1 \<le> c"
  shows "\<exists>o1 l1 o2 l2.
           attention query key scale val bias (Some c) junk1 junk2 = Some (o1, l1) \<and>
           attention query key scale val bias (Some (int nq)) junk3 junk4 = Some (o2, l2) \<and>
           shape o1 = bs @ [nq, dv] \<and> shape o2 = bs @ [nq, dv] \<and>
           shape l1 = bs @ [nq, nk] \<and> shape l2 = bs @ [nq, nk] \<and>
           (\<forall>idx. valid_index (bs @ [nq, dv]) idx \<longrightarrow> elem o1 idx = elem o2 idx) \<and>
           (\<forall>idx. valid_index (bs @ [nq, nk]) idx \<longrightarrow> elem l1 idx = elem l2 idx)"
proof -
  have s1: "Some c = None \<or> (\<exists>c'\<ge>0. Some c = Some c')" using c by auto
  have s2: "Some (int nq) = None \<or> (\<exists>c'\<ge>0. Some (int nq) = Some c')" by auto
  obtain o1 l1 where a1: "attention query key scale val bias (Some c) junk1 junk2 = Some (o1, l1)"
    "shape o1 = bs @ [nq, dv]" "shape l1 = bs @ [nq, nk]"
    and o1: "\<And>bi r e. valid_index bs bi \<Longrightarrow> r < nq \<Longrightarrow> e < dv \<Longrightarrow>
       elem o1 (bi @ [r, e]) = att_out query key scale val bias d nk bi r e"
    and l1: "\<And>bi r j. valid_index bs bi \<Longrightarrow> r < nq \<Longrightarrow> j < nk \<Longrightarrow>
       elem l1 (bi @ [r, j]) = att_weight query key scale bias d nk bi r j"
    using attention_rows[OF q k v eb r2 nk s1, where scale = scale and junk_o = junk1
        and junk_l = junk2] by blast
  obtain o2 l2 where a2: "attention query key scale val bias (Some (int nq)) junk3 junk4 = Some (o2, l2)"
    "shape o2 = bs @ [nq, dv]" "shape l2 = bs @ [nq, nk]"
    and o2: "\<And>bi r e. valid_index bs bi \<Longrightarrow> r < nq \<Longrightarrow> e < dv \<Longrightarrow>
       elem o2 (bi @ [r, e]) = att_out query key scale val bias d nk bi r e"
    and l2: "\<And>bi r j. valid_index bs bi \<Longrightarrow> r < nq \<Longrightarrow> j < nk \<Longrightarrow>
       elem l2 (bi @ [r, j]) = att_weight query key scale bias d nk bi r j"
    using attention_rows[OF q k v eb r2 nk s2, where scale = scale and junk_o = junk3
        and junk_l = junk4] by blast
  have "elem o1 idx = elem o2 idx" if "valid_index (bs @ [nq, dv]) idx" for idx
    using that by (elim valid_index_rows) (simp add: o1 o2)
  moreover have "elem l1 idx = elem l2 idx" if "valid_index (bs @ [nq, nk]) idx" for idx
    using that by (elim valid_index_rows) (simp add: l1 l2)
  ultimately show ?thesis using a1 a2 by blast
qed

text \<open>
  C2, as the code has it. A negative chunk size makes \<open>attention\<close> raise (in \<open>split\<close>); a
  chunk size of zero is treated exactly like an absent one (\<open>subbatch_size or q_length\<close>):
  the whole query is one chunk. The counterexample below shows a call with chunk size
  zero that returns.
\<close>

theorem attention_chunk_size_not_positive:
  "(c < 0 \<longrightarrow> attention query key scale val bias (Some c) junk_o junk_l = None) \<and>
   attention query key scale val bias (Some 0) junk_o junk_l
     = attention query key scale val bias None junk_o junk_l"
  by (auto simp: attention_def split_def Let_def split: option.splits Option.bind_splits)


theorem attention_chunk_invariance_witness:
  "shape (ramp [3, 1]) = [] @ [3, 1] \<and> shape (ramp [2, 1]) = [] @ [2, 1] \<and>
   shape (ramp [2, 4]) = [] @ [2, 4] \<and> expandable (shape (ramp [3, 2])) ([] @ [3, 2]) \<and>
   2 \<le> ndim (ramp [3, 2]) \<and> (0::nat) < 2 \<and> (1::int) \<le> 2 \<and>
   (\<exists>o1 l1 o2 l2.
      attention (ramp [3, 1]) (ramp [2, 1]) 1 (ramp [2, 4]) (ramp [3, 2]) (Some 2)
        (\<lambda>idx. 0) (\<lambda>idx. 1) = Some (o1, l1) \<and>
      attention (ramp [3, 1]) (ramp [2, 1]) 1 (ramp [2, 4]) (ramp [3, 2]) (Some 3)
        (\<lambda>idx. 5) (\<lambda>idx. 7) = Some (o2, l2) \<and>
      elem o1 [2, 3] = elem o2 [2, 3] \<and> elem l1 [2, 1] = elem l2 [2, 1])"
proof -
  have q: "shape (ramp [3, 1]) = [] @ [3, 1]" and k: "shape (ramp [2, 1]) = [] @ [2, 1]"
    and v: "shape (ramp [2, 4]) = [] @ [2, 4]"
    and eb: "expandable (shape (ramp [3, 2])) ([] @ [3, 2])"
    and r2: "2 \<le> ndim (ramp [3, 2])"
    by (simp_all add: ramp_def ndim_def expandable_refl)
  have nk: "(0::nat) < 2" and c: "(1::int) \<le> 2" by simp_all
  have v1: "valid_index ([] @ [3, 4]) [2, 3]" and v2: "valid_index ([] @ [3, 2]) [2, 1]"
    by simp_all
  from attention_chunk_invariance[OF q k v eb r2 nk c, of 1 "\<lambda>idx. 0" "\<lambda>idx. 1" "\<lambda>idx. 5" "\<lambda>idx. 7"]
  obtain o1 l1 o2 l2 where
    "attention (ramp [3, 1]) (ramp [2, 1]) 1 (ramp [2, 4]) (ramp [3, 2]) (Some 2)
        (\<lambda>idx. 0) (\<lambda>idx. 1) = Some (o1, l1)"
    "attention (ramp [3, 1]) (ramp [2, 1]) 1 (ramp [2, 4]) (ramp [3, 2]) (Some (int 3))
        (\<lambda>idx. 5) (\<lambda>idx. 7) = Some (o2, l2)"
    "\<forall>idx. valid_index ([] @ [3, 4]) idx \<longrightarrow> elem o1 idx = elem o2 idx"
    "\<forall>idx. valid_index ([] @ [3, 2]) idx \<longrightarrow> elem l1 idx = elem l2 idx"
    by blast
  then show ?thesis using q k v eb r2 v1 v2 by auto
qed

theorem attention_chunk_size_not_positive_witness:
  "(- 1 :: int) < 0 \<and>
   attention (ramp [3, 1]) (ramp [2, 1]) 1 (ramp [2, 4]) (ramp [3, 2]) (Some (- 1))
     (\<lambda>idx. 0) (\<lambda>idx. 0) = None \<and>
   attention (ramp [3, 1]) (ramp [2, 1]) 1 (ramp [2, 4]) (ramp [3, 2]) (Some 0)
     (\<lambda>idx. 0) (\<lambda>idx. 0)
   = attention (ramp [3, 1]) (ramp [2, 1]) 1 (ramp [2, 4]) (ramp [3, 2]) None
     (\<lambda>idx. 0) (\<lambda>idx. 0)"
  using attention_chunk_size_not_positive[of "- 1" "ramp [3, 1]" "ramp [2, 1]" 1 "ramp [2, 4]"
      "ramp [3, 2]" "\<lambda>idx. 0" "\<lambda>idx. 0"]
  by simp

theorem attention_chunk_size_zero_counterexample:
  "\<not> (attention (ramp [3, 1]) (ramp [2, 1]) 1 (ramp [2, 4]) (ramp [3, 2]) (Some 0)
        (\<lambda>idx. 0) (\<lambda>idx. 0) = None)"
proof -
  have q: "shape (ramp [3, 1]) = [] @ [3, 1]" and k: "shape (ramp [2, 1]) = [] @ [2, 1]"
    and v: "shape (ramp [2, 4]) = [] @ [2, 4]"
    and eb: "expandable (shape (ramp [3, 2])) ([] @ [3, 2])"
    and r2: "2 \<le> ndim (ramp [3, 2])"
    by (simp_all add: ramp_def ndim_def expandable_refl)
  have nk: "(0::nat) < 2" by simp
  have s: "Some (0::int) = None \<or> (\<exists>c\<ge>0. Some (0::int) = Some c)" by simp
  from attention_rows[OF q k v eb r2 nk s] show ?thesis by fastforce
qed

subsection \<open>\<open>Attention.forward\<close>\<close>

lemma if_one_index: "i < n \<Longrightarrow> (if n = Suc 0 then 0 else i) = (i::nat)"
  by auto

lemma broadcast_shapes_Nil2: "broadcast_shapes bs [] = Some bs"
  by (simp add: broadcast_shapes_def broadcast_rev_Nil2)

lemma bidx_Nil: "bidx [] idx = []"
  by (simp add: bidx_def)

lemma einsum_qar_arhc:
  assumes a: "shape a = bs @ [n, da, r]" and b: "shape b = [da, r, h, c]"
  shows "\<exists>t. einsum (Dots ''qar'') (Plain ''arhc'') ''rhqc'' a b = Some t \<and>
           shape t = bs @ [r, h, n, c] \<and>
           (\<forall>bi ri hi qi ci. valid_index bs bi \<and> ri < r \<and> hi < h \<and> qi < n \<and> ci < c \<longrightarrow>
              elem t (bi @ [ri, hi, qi, ci]) =
                (\<Sum>v<da. elem a (bi @ [qi, v, ri]) * elem b [v, ri, hi, ci]))"
proof -
  let ?ds = "[(CHR ''q'', n), (CHR ''a'', da), (CHR ''r'', r),
              (CHR ''a'', da), (CHR ''r'', r), (CHR ''h'', h), (CHR ''c'', c)]"
  have da: "dots_shape (Dots ''qar'') (bs @ [n, da, r]) = bs"
    "dots_shape (Plain ''arhc'') [da, r, h, c] = []"
    by (simp_all add: dots_shape_def)
  have la: "label_dims (Dots ''qar'') (bs @ [n, da, r]) =
      [(CHR ''q'', n), (CHR ''a'', da), (CHR ''r'', r)]"
    "label_dims (Plain ''arhc'') [da, r, h, c] =
      [(CHR ''a'', da), (CHR ''r'', r), (CHR ''h'', h), (CHR ''c'', c)]"
    by (simp_all add: label_dims_def)
  have sz: "label_size ?ds CHR ''q'' = n" "label_size ?ds CHR ''a'' = da"
    "label_size ?ds CHR ''r'' = r" "label_size ?ds CHR ''h'' = h" "label_size ?ds CHR ''c'' = c"
    and ok: "label_ok ?ds CHR ''q''" "label_ok ?ds CHR ''a''" "label_ok ?ds CHR ''r''"
    "label_ok ?ds CHR ''h''" "label_ok ?ds CHR ''c''"
    by (rule label_uniform; force)+
  let ?t = "the (einsum (Dots ''qar'') (Plain ''arhc'') ''rhqc'' a b)"
  have e: "einsum (Dots ''qar'') (Plain ''arhc'') ''rhqc'' a b = Some ?t"
    and sh: "shape ?t = bs @ [r, h, n, c]"
    by (simp_all add: einsum_def a b da la broadcast_shapes_Nil2 sz ok Let_def)
  have el: "elem ?t (bi @ [ri, hi, qi, ci]) =
      (\<Sum>v<da. elem a (bi @ [qi, v, ri]) * elem b [v, ri, hi, ci])"
    if v: "valid_index bs bi" and i: "ri < r" "hi < h" "qi < n" "ci < c" for bi ri hi qi ci
  proof -
    have l: "length bi = length bs" using v by (rule valid_index_length)
    show ?thesis
      using v l i
      by (auto simp add: einsum_def a b da la broadcast_shapes_Nil2 sz ok Let_def
          operand_index_def bidx_valid bidx_Nil if_one_index intro!: sum.cong)
  qed
  show ?thesis using e sh el by blast
qed


lemma einsum_kar_arhc:
  assumes a: "shape a = bs @ [n, da, r]" and b: "shape b = [da, r, h, c]"
  shows "\<exists>t. einsum (Dots ''kar'') (Plain ''arhc'') ''rhkc'' a b = Some t \<and>
           shape t = bs @ [r, h, n, c] \<and>
           (\<forall>bi ri hi ki ci. valid_index bs bi \<and> ri < r \<and> hi < h \<and> ki < n \<and> ci < c \<longrightarrow>
              elem t (bi @ [ri, hi, ki, ci]) =
                (\<Sum>va<da. elem a (bi @ [ki, va, ri]) * elem b ([va, ri, hi, ci])))"
proof -
  let ?ds = "[(CHR ''k'', n), (CHR ''a'', da), (CHR ''r'', r),
              (CHR ''a'', da), (CHR ''r'', r), (CHR ''h'', h), (CHR ''c'', c)]"
  have da: "dots_shape (Dots ''kar'') (bs @ [n, da, r]) = bs"
    "dots_shape (Plain ''arhc'') ([da, r, h, c]) = []"
    by (simp_all add: dots_shape_def)
  have la: "label_dims (Dots ''kar'') (bs @ [n, da, r]) =
      [(CHR ''k'', n), (CHR ''a'', da), (CHR ''r'', r)]"
    "label_dims (Plain ''arhc'') ([da, r, h, c]) =
      [(CHR ''a'', da), (CHR ''r'', r), (CHR ''h'', h), (CHR ''c'', c)]"
    by (simp_all add: label_dims_def)
  have sz: "label_size ?ds CHR ''k'' = n" "label_size ?ds CHR ''a'' = da" "label_size ?ds CHR ''r'' = r" "label_size ?ds CHR ''h'' = h" "label_size ?ds CHR ''c'' = c"
    and ok: "label_ok ?ds CHR ''k''" "label_ok ?ds CHR ''a''" "label_ok ?ds CHR ''r''" "label_ok ?ds CHR ''h''" "label_ok ?ds CHR ''c''"
    by (rule label_uniform; force)+
  let ?t = "the (einsum (Dots ''kar'') (Plain ''arhc'') ''rhkc'' a b)"
  have e: "einsum (Dots ''kar'') (Plain ''arhc'') ''rhkc'' a b = Some ?t"
    and sh: "shape ?t = bs @ [r, h, n, c]"
    by (simp_all add: einsum_def a b da la broadcast_shapes_Nil2 sz ok Let_def)
  have el: "elem ?t (bi @ [ri, hi, ki, ci]) =
      (\<Sum>va<da. elem a (bi @ [ki, va, ri]) * elem b ([va, ri, hi, ci]))"
    if v: "valid_index bs bi" and i: "ri < r" "hi < h" "ki < n" "ci < c" for bi ri hi ki ci
  proof -
    have l: "length bi = length bs" using v by (rule valid_index_length)
    show ?thesis
      using v l i
      by (auto simp add: einsum_def a b da la broadcast_shapes_Nil2 sz ok Let_def
          operand_index_def bidx_valid bidx_Nil if_one_index intro!: sum.cong)
  qed
  show ?thesis using e sh el by blast
qed

lemma einsum_rhqc_rhco:
  assumes a: "shape a = bs @ [r, h, n, c]" and b: "shape b = [r, h, c, m]"
  shows "\<exists>t. einsum (Dots ''rhqc'') (Plain ''rhco'') ''qor'' a b = Some t \<and>
           shape t = bs @ [n, m, r] \<and>
           (\<forall>bi qi oi ri. valid_index bs bi \<and> qi < n \<and> oi < m \<and> ri < r \<longrightarrow>
              elem t (bi @ [qi, oi, ri]) =
                (\<Sum>vh<h. \<Sum>vc<c. elem a (bi @ [ri, vh, qi, vc]) * elem b ([ri, vh, vc, oi])))"
proof -
  let ?ds = "[(CHR ''r'', r), (CHR ''h'', h), (CHR ''q'', n), (CHR ''c'', c),
              (CHR ''r'', r), (CHR ''h'', h), (CHR ''c'', c), (CHR ''o'', m)]"
  have da: "dots_shape (Dots ''rhqc'') (bs @ [r, h, n, c]) = bs"
    "dots_shape (Plain ''rhco'') ([r, h, c, m]) = []"
    by (simp_all add: dots_shape_def)
  have la: "label_dims (Dots ''rhqc'') (bs @ [r, h, n, c]) =
      [(CHR ''r'', r), (CHR ''h'', h), (CHR ''q'', n), (CHR ''c'', c)]"
    "label_dims (Plain ''rhco'') ([r, h, c, m]) =
      [(CHR ''r'', r), (CHR ''h'', h), (CHR ''c'', c), (CHR ''o'', m)]"
    by (simp_all add: label_dims_def)
  have sz: "label_size ?ds CHR ''r'' = r" "label_size ?ds CHR ''h'' = h" "label_size ?ds CHR ''q'' = n" "label_size ?ds CHR ''c'' = c" "label_size ?ds CHR ''o'' = m"
    and ok: "label_ok ?ds CHR ''r''" "label_ok ?ds CHR ''h''" "label_ok ?ds CHR ''q''" "label_ok ?ds CHR ''c''" "label_ok ?ds CHR ''o''"
    by (rule label_uniform; force)+
  let ?t = "the (einsum (Dots ''rhqc'') (Plain ''rhco'') ''qor'' a b)"
  have e: "einsum (Dots ''rhqc'') (Plain ''rhco'') ''qor'' a b = Some ?t"
    and sh: "shape ?t = bs @ [n, m, r]"
    by (simp_all add: einsum_def a b da la broadcast_shapes_Nil2 sz ok Let_def)
  have el: "elem ?t (bi @ [qi, oi, ri]) =
      (\<Sum>vh<h. \<Sum>vc<c. elem a (bi @ [ri, vh, qi, vc]) * elem b ([ri, vh, vc, oi]))"
    if v: "valid_index bs bi" and i: "qi < n" "oi < m" "ri < r" for bi qi oi ri
  proof -
    have l: "length bi = length bs" using v by (rule valid_index_length)
    show ?thesis
      using v l i
      by (auto simp add: einsum_def a b da la broadcast_shapes_Nil2 sz ok Let_def
          operand_index_def bidx_valid bidx_Nil if_one_index intro!: sum.cong)
  qed
  show ?thesis using e sh el by blast
qed

lemma expandable_append: "expandable sh dst \<Longrightarrow> expandable sh (bs @ dst)"
  by (auto simp: expandable_iff nth_append)

lemma bidx_append:
  "length idx = length sh \<Longrightarrow> bidx sh (bi @ idx) = bidx sh idx"
  by (simp add: bidx_def)

lemma bidx_Cons:
  "length idx = length sh \<Longrightarrow> bidx (n # sh) (i # idx) = (if n = 1 then 0 else i) # bidx sh idx"
  by (simp add: bidx_def)

lemma project_q:
  assumes a: "shape a = bs @ [n, da, r]" and w: "shape w = [da, r, h, c]"
    and b: "shape b = [r, h, Suc 0, c]"
  shows "\<exists>t0 t. einsum (Dots ''qar'') (Plain ''arhc'') ''rhqc'' a w = Some t0 \<and>
           binop_inplace (+) t0 b = Some t \<and> shape t = bs @ [r, h, n, c] \<and>
           (\<forall>bi ri hi qi ci. valid_index bs bi \<and> ri < r \<and> hi < h \<and> qi < n \<and> ci < c \<longrightarrow>
              elem t (bi @ [ri, hi, qi, ci]) =
                (\<Sum>v<da. elem a (bi @ [qi, v, ri]) * elem w [v, ri, hi, ci]) +
                elem b [ri, hi, 0, ci])"
proof -
  obtain t0 where e: "einsum (Dots ''qar'') (Plain ''arhc'') ''rhqc'' a w = Some t0"
    and sh: "shape t0 = bs @ [r, h, n, c]"
    and el: "\<And>bi ri hi qi ci. valid_index bs bi \<Longrightarrow> ri < r \<Longrightarrow> hi < h \<Longrightarrow> qi < n \<Longrightarrow> ci < c \<Longrightarrow>
              elem t0 (bi @ [ri, hi, qi, ci]) =
                (\<Sum>v<da. elem a (bi @ [qi, v, ri]) * elem w [v, ri, hi, ci])"
    using einsum_qar_arhc[OF a w] by blast
  have ex: "expandable (shape b) (shape t0)"
    unfolding sh b by (rule expandable_append) (simp add: expandable_all2)
  let ?t = "\<lparr>shape = shape t0,
      elem = (\<lambda>idx. elem t0 (bidx (shape t0) idx) + elem b (bidx (shape b) idx))\<rparr>"
  have bt: "binop_inplace (+) t0 b = Some ?t"
    by (rule binop_inplace_expand[OF ex])
  have "elem ?t (bi @ [ri, hi, qi, ci]) =
      (\<Sum>v<da. elem a (bi @ [qi, v, ri]) * elem w [v, ri, hi, ci]) + elem b [ri, hi, 0, ci]"
    if v: "valid_index bs bi" and i: "ri < r" "hi < h" "qi < n" "ci < c" for bi ri hi qi ci
  proof -
    have l: "length bi = length bs" using v by (rule valid_index_length)
    have vi: "valid_index (bs @ [r, h, n, c]) (bi @ [ri, hi, qi, ci])"
      using v i l by (simp add: valid_index_append)
    show ?thesis
      using v i by (simp add: sh b bidx_valid[OF vi] bidx_append bidx_Cons bidx_Nil if_one_index el)
  qed
  then show ?thesis using e bt sh by auto
qed

lemma project_k:
  assumes a: "shape a = bs @ [n, da, r]" and w: "shape w = [da, r, h, c]"
    and b: "shape b = [r, h, Suc 0, c]"
  shows "\<exists>t0 t. einsum (Dots ''kar'') (Plain ''arhc'') ''rhkc'' a w = Some t0 \<and>
           binop_inplace (+) t0 b = Some t \<and> shape t = bs @ [r, h, n, c] \<and>
           (\<forall>bi ri hi ki ci. valid_index bs bi \<and> ri < r \<and> hi < h \<and> ki < n \<and> ci < c \<longrightarrow>
              elem t (bi @ [ri, hi, ki, ci]) =
                (\<Sum>v<da. elem a (bi @ [ki, v, ri]) * elem w [v, ri, hi, ci]) +
                elem b [ri, hi, 0, ci])"
proof -
  obtain t0 where e: "einsum (Dots ''kar'') (Plain ''arhc'') ''rhkc'' a w = Some t0"
    and sh: "shape t0 = bs @ [r, h, n, c]"
    and el: "\<And>bi ri hi ki ci. valid_index bs bi \<Longrightarrow> ri < r \<Longrightarrow> hi < h \<Longrightarrow> ki < n \<Longrightarrow> ci < c \<Longrightarrow>
              elem t0 (bi @ [ri, hi, ki, ci]) =
                (\<Sum>v<da. elem a (bi @ [ki, v, ri]) * elem w [v, ri, hi, ci])"
    using einsum_kar_arhc[OF a w] by blast
  have ex: "expandable (shape b) (shape t0)"
    unfolding sh b by (rule expandable_append) (simp add: expandable_all2)
  let ?t = "\<lparr>shape = shape t0,
      elem = (\<lambda>idx. elem t0 (bidx (shape t0) idx) + elem b (bidx (shape b) idx))\<rparr>"
  have bt: "binop_inplace (+) t0 b = Some ?t"
    by (rule binop_inplace_expand[OF ex])
  have "elem ?t (bi @ [ri, hi, ki, ci]) =
      (\<Sum>v<da. elem a (bi @ [ki, v, ri]) * elem w [v, ri, hi, ci]) + elem b [ri, hi, 0, ci]"
    if v: "valid_index bs bi" and i: "ri < r" "hi < h" "ki < n" "ci < c" for bi ri hi ki ci
  proof -
    have l: "length bi = length bs" using v by (rule valid_index_length)
    have vi: "valid_index (bs @ [r, h, n, c]) (bi @ [ri, hi, ki, ci])"
      using v i l by (simp add: valid_index_append)
    show ?thesis
      using v i by (simp add: sh b bidx_valid[OF vi] bidx_append bidx_Cons bidx_Nil if_one_index el)
  qed
  then show ?thesis using e bt sh by auto
qed

lemma wrap_dim_neg: "0 < k \<Longrightarrow> k \<le> n \<Longrightarrow> wrap_dim n (- int k) = Some (n - k)"
  by (auto simp: wrap_dim_def Let_def nat_diff_distrib')

lemma wrap_dim_m1: "wrap_dim (Suc n) (- 1) = Some n"
  by (simp add: wrap_dim_def)

lemma split_last_one:
  assumes x: "shape x = sh @ [c]" and c: "0 < c"
  shows "split x (int c) (- 1) = Some [narrow (length sh) 0 c x]"
proof -
  have n: "(c + c - Suc 0) div c = Suc 0"
    using c by (intro div_nat_eqI) auto
  show ?thesis
    using c by (simp add: split_def x ndim_def wrap_dim_m1 Let_def n)
qed

lemma split_last_two:
  assumes x: "shape x = sh @ [2 * c]" and c: "0 < c"
  shows "split x (int c) (- 1) = Some [narrow (length sh) 0 c x, narrow (length sh) c c x]"
proof -
  have n: "(3 * c - Suc 0) div c = 2"
    using c by (intro div_nat_eqI) auto
  have u: "[0..<2] = [0, Suc 0]" by (simp add: upt_rec)
  show ?thesis
    using c by (simp add: split_def x ndim_def wrap_dim_m1 Let_def n u)
qed

lemma split_sizes_two:
  assumes x: "shape x = sh @ [c1 + c2]"
  shows "split_sizes x [c1, c2] (- 1) =
           Some [narrow (length sh) 0 c1 x, narrow (length sh) c1 c2 x]"
proof -
  have u: "[0..<2] = [0, Suc 0]" by (simp add: upt_rec)
  show ?thesis
    by (simp add: split_sizes_def x ndim_def wrap_dim_m1 Let_def u)
qed

lemma narrow_last_shape:
  "shape x = sh @ [n] \<Longrightarrow> shape (narrow (length sh) s l x) = sh @ [l]"
  by (simp add: narrow_def)

lemma narrow_last_elem:
  "elem (narrow (length bi) s l x) (bi @ [i]) = elem x (bi @ [i + s])"
  by (simp add: narrow_def)

lemma shape_at_neg:
  "0 < k \<Longrightarrow> k \<le> ndim x \<Longrightarrow> shape_at x (- int k) = Some (shape x ! (ndim x - k))"
  by (auto simp: shape_at_def Let_def nat_diff_distrib' intro!: arg_cong[where f = "nth (shape x)"])

lemma Attention_forward_core:
  assumes M: "self = Attention_init q_dim kv_dim H gating c out_dim R w_qg w_kv b_qg b_kv w_o b_o"
    and c: "0 < c" and nk: "0 < nk"
    and q2: "shape q' = bs @ [nq, q_dim, R]"
    and k2: "shape kv' = bs @ [nk, kv_dim, R]"
  obtains (core) Q K V where
    "shape Q = bs @ [R, H, nq, c]" "shape K = bs @ [R, H, nk, c]" "shape V = bs @ [R, H, nk, c]"
    "\<And>bi r h q cc. valid_index bs bi \<Longrightarrow> r < R \<Longrightarrow> h < H \<Longrightarrow> q < nq \<Longrightarrow> cc < c \<Longrightarrow>
        elem Q (bi @ [r, h, q, cc]) = proj q' w_qg b_qg q_dim 0 bi r h q cc"
    "\<And>bi r h k cc. valid_index bs bi \<Longrightarrow> r < R \<Longrightarrow> h < H \<Longrightarrow> k < nk \<Longrightarrow> cc < c \<Longrightarrow>
        elem K (bi @ [r, h, k, cc]) = proj kv' w_kv b_kv kv_dim 0 bi r h k cc"
    "\<And>bi r h k cc. valid_index bs bi \<Longrightarrow> r < R \<Longrightarrow> h < H \<Longrightarrow> k < nk \<Longrightarrow> cc < c \<Longrightarrow>
        elem V (bi @ [r, h, k, cc]) = proj kv' w_kv b_kv kv_dim c bi r h k cc"
    "\<And>b' fwd_cfg junk_o junk_l.
        expandable (shape b') (bs @ [R, H, nq, nk]) \<Longrightarrow> 2 \<le> ndim b' \<Longrightarrow> fwd_cfg_ok fwd_cfg \<Longrightarrow>
        \<exists>out0 lg0.
           shape out0 = bs @ [nq, out_dim, R] \<and> shape lg0 = bs @ [R, H, nq, nk] \<and>
           (\<forall>bi r h q k. valid_index bs bi \<and> r < R \<and> h < H \<and> q < nq \<and> k < nk \<longrightarrow>
              elem lg0 (bi @ [r, h, q, k]) =
                att_weight Q K (real c powr (- 1 / 2)) b' c nk (bi @ [r, h]) q k) \<and>
           (\<forall>bi q e r. valid_index bs bi \<and> q < nq \<and> e < out_dim \<and> r < R \<longrightarrow>
              elem out0 (bi @ [q, e, r]) =
                (\<Sum>h<H. \<Sum>cc<c.
                   att_out Q K (real c powr (- 1 / 2)) V b' c nk (bi @ [r, h]) q cc *
                   (if gating then sigmoid (proj q' w_qg b_qg q_dim c bi r h q cc) else 1) *
                   w_o [r, h, cc, e]) + b_o [e, r]) \<and>
           (\<forall>tu q_inputs kv_inputs b.
              0 < ndim q_inputs \<and>
              tu = (last (shape q_inputs) \<noteq> R \<and> last (shape q_inputs) = q_dim) \<and>
              (if tu then unsqueeze q_inputs (- 1) else Some q_inputs) = Some q' \<and>
              (if tu then unsqueeze kv_inputs (- 1) else Some kv_inputs) = Some kv' \<and>
              (if tu then unsqueeze b (- 4) else Some b) = Some b' \<longrightarrow>
              Attention_forward self q_inputs kv_inputs (Some b) fwd_cfg junk_o junk_l =
             do {
               (output, logits) \<leftarrow> (if tu
                                    then do {
                                      output \<leftarrow> squeeze out0 (- 1);
                                      logits \<leftarrow> squeeze lg0 (- 4);
                                      Some (output, logits)
                                    }
                                    else Some (out0, lg0));
               l1 \<leftarrow> unsqueeze logits (- 1);
               l2 \<leftarrow> torch_transpose l1 (- 1) (- 4);
               l3 \<leftarrow> squeeze l2 (- 4);
               Some (output, l3)
             })"
proof -
  define C2 where "C2 = (if gating then 2 * c else c)"
  have mc: "attn_c self = c" and mg: "attn_gating self = gating"
    and mq: "attn_q_dim self = q_dim" and mr: "attn_n_axis self = R"
    by (simp_all add: M Attention_init_def)
  have sqw: "shape (qg_weights self) = [q_dim, R, H, C2]"
    and sqb: "shape (qg_bias self) = [R, H, Suc 0, C2]"
    and skw: "shape (kv_weights self) = [kv_dim, R, H, c + c]"
    and skb: "shape (kv_bias self) = [R, H, Suc 0, c + c]"
    and sow: "shape (o_weights self) = [R, H, c, out_dim]"
    and sob: "shape (o_bias self) = [out_dim, R]"
    by (simp_all add: M Attention_init_def C2_def)
  have ew: "elem (qg_weights self) = w_qg" "elem (qg_bias self) = b_qg"
    "elem (kv_weights self) = w_kv" "elem (kv_bias self) = b_kv"
    "elem (o_weights self) = w_o" "elem (o_bias self) = b_o"
    by (simp_all add: M Attention_init_def)
  obtain qg0 qg where qg0: "einsum (Dots ''qar'') (Plain ''arhc'') ''rhqc'' q' (qg_weights self) = Some qg0"
    and qg: "binop_inplace (+) qg0 (qg_bias self) = Some qg"
    and sqg: "shape qg = bs @ [R, H, nq, C2]"
    and eqg: "\<And>bi r h q cc. valid_index bs bi \<Longrightarrow> r < R \<Longrightarrow> h < H \<Longrightarrow> q < nq \<Longrightarrow> cc < C2 \<Longrightarrow>
      elem qg (bi @ [r, h, q, cc]) =
        (\<Sum>v<q_dim. elem q' (bi @ [q, v, r]) * w_qg [v, r, h, cc]) + b_qg [r, h, 0, cc]"
    using project_q[OF q2 sqw sqb] unfolding ew by blast
  obtain kv0 kv where kv0: "einsum (Dots ''kar'') (Plain ''arhc'') ''rhkc'' kv' (kv_weights self) = Some kv0"
    and kv: "binop_inplace (+) kv0 (kv_bias self) = Some kv"
    and skv: "shape kv = bs @ [R, H, nk, c + c]"
    and ekv: "\<And>bi r h k cc. valid_index bs bi \<Longrightarrow> r < R \<Longrightarrow> h < H \<Longrightarrow> k < nk \<Longrightarrow> cc < c + c \<Longrightarrow>
      elem kv (bi @ [r, h, k, cc]) =
        (\<Sum>v<kv_dim. elem kv' (bi @ [k, v, r]) * w_kv [v, r, h, cc]) + b_kv [r, h, 0, cc]"
    using project_k[OF k2 skw skb] unfolding ew by blast
  define k3 where "k3 = length (bs @ [R, H, nq])"
  define Q where "Q = narrow k3 0 c qg"
  define G where "G = narrow k3 c c qg"
  define K where "K = narrow k3 0 c kv"
  define V where "V = narrow k3 c c kv"
  define q_out where "q_out = (if gating then [Q, G] else [Q])"
  have q_out0: "nth_opt q_out 0 = Some Q" by (simp add: q_out_def nth_opt_def)
  have sq_out': "split qg (int c) (- 1) = Some (if gating then [Q, G] else [Q])"
  proof (cases gating)
    case True
    then have "shape qg = (bs @ [R, H, nq]) @ [2 * c]" by (simp add: sqg C2_def)
    from split_last_two[OF this c] show ?thesis by (simp add: True Q_def G_def k3_def)
  next
    case False
    then have "shape qg = (bs @ [R, H, nq]) @ [c]" by (simp add: sqg C2_def)
    from split_last_one[OF this c] show ?thesis by (simp add: False Q_def k3_def)
  qed
  have sq_out: "split qg (int c) (- 1) = Some q_out"
    using sq_out' by (simp add: q_out_def)
  have skv': "shape kv = (bs @ [R, H, nk]) @ [c + c]" by (simp add: skv)
  have s_kv: "split_sizes kv [c, c] (- 1) = Some [K, V]"
    using split_sizes_two[OF skv'] by (simp add: K_def V_def k3_def)
  have sQ: "shape Q = bs @ [R, H, nq, c]" and sG: "shape G = bs @ [R, H, nq, c]"
    by (simp_all add: Q_def G_def k3_def narrow_def sqg list_update_append)
  have sK: "shape K = bs @ [R, H, nk, c]" and sV: "shape V = bs @ [R, H, nk, c]"
    by (simp_all add: K_def V_def k3_def narrow_def skv list_update_append)
  have cc2: "cc < c \<Longrightarrow> cc < C2" "cc < c \<Longrightarrow> gating \<Longrightarrow> c + cc < C2" for cc
    by (simp_all add: C2_def)
  have eQ: "elem Q (bi @ [r, h, q, cc]) = proj q' w_qg b_qg q_dim 0 bi r h q cc"
    if "valid_index bs bi" "r < R" "h < H" "q < nq" "cc < c" for bi r h q cc
  proof -
    have l: "length (bi @ [r, h, q]) = k3"
      using valid_index_length[OF that(1)] by (simp add: k3_def)
    have "elem Q ((bi @ [r, h, q]) @ [cc]) = elem qg ((bi @ [r, h, q]) @ [cc + 0])"
      unfolding Q_def l[symmetric] by (rule narrow_last_elem)
    then show ?thesis using that by (simp add: eqg cc2 proj_def)
  qed
  have eG: "elem G (bi @ [r, h, q, cc]) = proj q' w_qg b_qg q_dim c bi r h q cc"
    if "gating" "valid_index bs bi" "r < R" "h < H" "q < nq" "cc < c" for bi r h q cc
  proof -
    have l: "length (bi @ [r, h, q]) = k3"
      using valid_index_length[OF that(2)] by (simp add: k3_def)
    have "elem G ((bi @ [r, h, q]) @ [cc]) = elem qg ((bi @ [r, h, q]) @ [cc + c])"
      unfolding G_def l[symmetric] by (rule narrow_last_elem)
    then show ?thesis using that by (simp add: eqg cc2 proj_def add.commute)
  qed
  have eK: "elem K (bi @ [r, h, k, cc]) = proj kv' w_kv b_kv kv_dim 0 bi r h k cc"
    if "valid_index bs bi" "r < R" "h < H" "k < nk" "cc < c" for bi r h k cc
  proof -
    have l: "length (bi @ [r, h, k]) = k3"
      using valid_index_length[OF that(1)] by (simp add: k3_def)
    have "elem K ((bi @ [r, h, k]) @ [cc]) = elem kv ((bi @ [r, h, k]) @ [cc + 0])"
      unfolding K_def l[symmetric] by (rule narrow_last_elem)
    then show ?thesis using that by (simp add: ekv proj_def)
  qed
  have eV: "elem V (bi @ [r, h, k, cc]) = proj kv' w_kv b_kv kv_dim c bi r h k cc"
    if "valid_index bs bi" "r < R" "h < H" "k < nk" "cc < c" for bi r h k cc
  proof -
    have l: "length (bi @ [r, h, k]) = k3"
      using valid_index_length[OF that(1)] by (simp add: k3_def)
    have "elem V ((bi @ [r, h, k]) @ [cc]) = elem kv ((bi @ [r, h, k]) @ [cc + c])"
      unfolding V_def l[symmetric] by (rule narrow_last_elem)
    then show ?thesis using that by (simp add: ekv proj_def add.commute)
  qed
  have main: "\<exists>out0 lg0.
           shape out0 = bs @ [nq, out_dim, R] \<and> shape lg0 = bs @ [R, H, nq, nk] \<and>
           (\<forall>bi r h q k. valid_index bs bi \<and> r < R \<and> h < H \<and> q < nq \<and> k < nk \<longrightarrow>
              elem lg0 (bi @ [r, h, q, k]) =
                att_weight Q K (real c powr (- 1 / 2)) b' c nk (bi @ [r, h]) q k) \<and>
           (\<forall>bi q e r. valid_index bs bi \<and> q < nq \<and> e < out_dim \<and> r < R \<longrightarrow>
              elem out0 (bi @ [q, e, r]) =
                (\<Sum>h<H. \<Sum>cc<c.
                   att_out Q K (real c powr (- 1 / 2)) V b' c nk (bi @ [r, h]) q cc *
                   (if gating then sigmoid (proj q' w_qg b_qg q_dim c bi r h q cc) else 1) *
                   w_o [r, h, cc, e]) + b_o [e, r]) \<and>
           (\<forall>tu q_inputs kv_inputs b.
              0 < ndim q_inputs \<and>
              tu = (last (shape q_inputs) \<noteq> R \<and> last (shape q_inputs) = q_dim) \<and>
              (if tu then unsqueeze q_inputs (- 1) else Some q_inputs) = Some q' \<and>
              (if tu then unsqueeze kv_inputs (- 1) else Some kv_inputs) = Some kv' \<and>
              (if tu then unsqueeze b (- 4) else Some b) = Some b' \<longrightarrow>
              Attention_forward self q_inputs kv_inputs (Some b) fwd_cfg junk_o junk_l =
             do {
               (output, logits) \<leftarrow> (if tu
                                    then do {
                                      output \<leftarrow> squeeze out0 (- 1);
                                      logits \<leftarrow> squeeze lg0 (- 4);
                                      Some (output, logits)
                                    }
                                    else Some (out0, lg0));
               l1 \<leftarrow> unsqueeze logits (- 1);
               l2 \<leftarrow> torch_transpose l1 (- 1) (- 4);
               l3 \<leftarrow> squeeze l2 (- 4);
               Some (output, l3)
             })"
    if eb: "expandable (shape b') (bs @ [R, H, nq, nk])" and r2: "2 \<le> ndim b'"
      and fc: "fwd_cfg_ok fwd_cfg"
    for b' fwd_cfg junk_o junk_l
  proof -
    define sub where "sub = (case fwd_cfg of None \<Rightarrow> Some (int R) | Some s \<Rightarrow> s)"
    have sub_ok: "sub = None \<or> (\<exists>c\<ge>0. sub = Some c)"
      using fc by (auto simp: sub_def fwd_cfg_ok_def split: option.splits)
    have q4: "shape_at Q (- 4) = Some R"
      using shape_at_neg[of 4 Q] by (simp add: ndim_def sQ nth_append)
    have sa: "(case fwd_cfg of
                 None \<Rightarrow> map_option (\<lambda>n. Some (int n)) (shape_at Q (- 4))
               | Some s \<Rightarrow> Some s) = Some sub"
      by (simp add: q4 sub_def split: option.splits)
    define scale where "scale = real c powr (- 1 / 2)"
    have sQ': "shape Q = (bs @ [R, H]) @ [nq, c]" and sK': "shape K = (bs @ [R, H]) @ [nk, c]"
      and sV': "shape V = (bs @ [R, H]) @ [nk, c]"
      and eb': "expandable (shape b') ((bs @ [R, H]) @ [nq, nk])"
      using eb by (simp_all add: sQ sK sV)
    obtain ao lg0 where att: "attention Q K scale V b' sub junk_o junk_l = Some (ao, lg0)"
      and sao: "shape ao = bs @ [R, H, nq, c]" and slg: "shape lg0 = bs @ [R, H, nq, nk]"
      and eao: "\<And>bi r e. valid_index (bs @ [R, H]) bi \<Longrightarrow> r < nq \<Longrightarrow> e < c \<Longrightarrow>
                 elem ao (bi @ [r, e]) = att_out Q K scale V b' c nk bi r e"
      and elg: "\<And>bi r j. valid_index (bs @ [R, H]) bi \<Longrightarrow> r < nq \<Longrightarrow> j < nk \<Longrightarrow>
                 elem lg0 (bi @ [r, j]) = att_weight Q K scale b' c nk bi r j"
      using attention_rows[OF sQ' sK' sV' eb' r2 nk sub_ok, of scale junk_o junk_l] by auto
    define ga where "ga = (if gating
       then \<lparr>shape = shape ao,
             elem = (\<lambda>idx. elem ao (bidx (shape ao) idx) *
                       elem (unop sigmoid G) (bidx (shape (unop sigmoid G)) idx))\<rparr>
       else ao)"
    have gate: "(if gating
                 then do {
                   g_in \<leftarrow> nth_opt q_out 1;
                   binop_inplace (*) ao (unop sigmoid g_in)
                 }
                 else Some ao) = Some ga"
    proof (cases gating)
      case True
      have ex: "expandable (shape (unop sigmoid G)) (shape ao)"
        by (simp add: unop_def sG sao expandable_refl)
      show ?thesis
        using binop_inplace_expand[OF ex, of "(*)"]
        by (simp add: True nth_opt_def ga_def q_out_def)
    next
      case False
      then show ?thesis by (simp add: ga_def)
    qed
    have sga: "shape ga = bs @ [R, H, nq, c]" by (simp add: ga_def sao)
    have ega: "elem ga (bi @ [r, h, q, cc]) =
        att_out Q K scale V b' c nk (bi @ [r, h]) q cc *
        (if gating then sigmoid (proj q' w_qg b_qg q_dim c bi r h q cc) else 1)"
      if "valid_index bs bi" "r < R" "h < H" "q < nq" "cc < c" for bi r h q cc
    proof -
      have l: "length bi = length bs" using that(1) by (rule valid_index_length)
      have v2: "valid_index (bs @ [R, H]) (bi @ [r, h])"
        using that l by (simp add: valid_index_append)
      have v4: "valid_index (bs @ [R, H, nq, c]) (bi @ [r, h, q, cc])"
        using that l by (simp add: valid_index_append)
      have a: "elem ao (bi @ [r, h, q, cc]) = att_out Q K scale V b' c nk (bi @ [r, h]) q cc"
        using eao[OF v2 that(4,5)] by simp
      show ?thesis
        using that by (simp add: ga_def sao sG unop_def bidx_valid[OF v4] a eG)
    qed
    obtain o0 where o0: "einsum (Dots ''rhqc'') (Plain ''rhco'') ''qor'' ga (o_weights self) = Some o0"
      and so0: "shape o0 = bs @ [nq, out_dim, R]"
      and eo0: "\<And>bi q e r. valid_index bs bi \<Longrightarrow> q < nq \<Longrightarrow> e < out_dim \<Longrightarrow> r < R \<Longrightarrow>
                 elem o0 (bi @ [q, e, r]) =
                   (\<Sum>h<H. \<Sum>cc<c. elem ga (bi @ [r, h, q, cc]) * w_o [r, h, cc, e])"
      using einsum_rhqc_rhco[OF sga sow] unfolding ew by blast
    have exo: "expandable (shape (o_bias self)) (shape o0)"
    proof -
      have "expandable [out_dim, R] ((bs @ [nq]) @ [out_dim, R])"
        by (rule expandable_append) (rule expandable_refl)
      then show ?thesis by (simp add: sob so0)
    qed
    define out0 where "out0 = \<lparr>shape = shape o0,
        elem = (\<lambda>idx. elem o0 (bidx (shape o0) idx) +
                  elem (o_bias self) (bidx (shape (o_bias self)) idx))\<rparr>"
    have ob: "binop_inplace (+) o0 (o_bias self) = Some out0"
      unfolding out0_def by (rule binop_inplace_expand[OF exo])
    have sout: "shape out0 = bs @ [nq, out_dim, R]" by (simp add: out0_def so0)
    have eout: "elem out0 (bi @ [q, e, r]) =
        (\<Sum>h<H. \<Sum>cc<c.
           att_out Q K scale V b' c nk (bi @ [r, h]) q cc *
           (if gating then sigmoid (proj q' w_qg b_qg q_dim c bi r h q cc) else 1) *
           w_o [r, h, cc, e]) + b_o [e, r]"
      if "valid_index bs bi" "q < nq" "e < out_dim" "r < R" for bi q e r
    proof -
      have l: "length bi = length bs" using that(1) by (rule valid_index_length)
      have v3: "valid_index (bs @ [nq, out_dim, R]) (bi @ [q, e, r])"
        using that l by (simp add: valid_index_append)
      have "elem out0 (bi @ [q, e, r]) = elem o0 (bi @ [q, e, r]) + b_o [e, r]"
        using that
        by (simp add: out0_def so0 sob ew bidx_valid[OF v3] bidx_append[of "[e, r]" _ "bi @ [q]", simplified]
            bidx_Cons bidx_Nil if_one_index)
      also have "elem o0 (bi @ [q, e, r]) =
          (\<Sum>h<H. \<Sum>cc<c. elem ga (bi @ [r, h, q, cc]) * w_o [r, h, cc, e])"
        using that by (rule eo0)
      also have "\<dots> = (\<Sum>h<H. \<Sum>cc<c.
           att_out Q K scale V b' c nk (bi @ [r, h]) q cc *
           (if gating then sigmoid (proj q' w_qg b_qg q_dim c bi r h q cc) else 1) *
           w_o [r, h, cc, e])"
        by (intro sum.cong refl) (use that in \<open>simp add: ega\<close>)
      finally show ?thesis .
    qed
    have elg': "elem lg0 (bi @ [r, h, q, k]) = att_weight Q K scale b' c nk (bi @ [r, h]) q k"
      if "valid_index bs bi" "r < R" "h < H" "q < nq" "k < nk" for bi r h q k
    proof -
      have l: "length bi = length bs" using that(1) by (rule valid_index_length)
      have v2: "valid_index (bs @ [R, H]) (bi @ [r, h])"
        using that l by (simp add: valid_index_append)
      show ?thesis using elg[OF v2 that(4,5)] by simp
    qed
    have cz: "c \<noteq> 0" using c by simp
    have sc: "real c powr - (1 / 2) = scale" by (simp add: scale_def)
    have fwd: "Attention_forward self q_inputs kv_inputs (Some b) fwd_cfg junk_o junk_l =
             do {
               (output, logits) \<leftarrow> (if tu
                                    then do {
                                      output \<leftarrow> squeeze out0 (- 1);
                                      logits \<leftarrow> squeeze lg0 (- 4);
                                      Some (output, logits)
                                    }
                                    else Some (out0, lg0));
               l1 \<leftarrow> unsqueeze logits (- 1);
               l2 \<leftarrow> torch_transpose l1 (- 1) (- 4);
               l3 \<leftarrow> squeeze l2 (- 4);
               Some (output, l3)
             }"
      if n0: "0 < ndim q_inputs"
        and tu: "tu = (last (shape q_inputs) \<noteq> R \<and> last (shape q_inputs) = q_dim)"
        and q1: "(if tu then unsqueeze q_inputs (- 1) else Some q_inputs) = Some q'"
        and k1: "(if tu then unsqueeze kv_inputs (- 1) else Some kv_inputs) = Some kv'"
        and b1: "(if tu then unsqueeze b (- 4) else Some b) = Some b'"
      for tu q_inputs kv_inputs b
    proof (cases tu)
      case True
      have q_last: "shape_at q_inputs (- 1) = Some (last (shape q_inputs))"
      proof -
        have "1 \<le> ndim q_inputs" using n0 by simp
        from shape_at_m1[OF this] show ?thesis
          using n0 by (simp add: ndim_def last_conv_nth)
      qed
      have t: "last (shape q_inputs) \<noteq> R" "last (shape q_inputs) = q_dim"
        using tu True by auto
      show ?thesis
        using q1 k1 b1 t
        by (simp add: Attention_forward_def q_last mc mg mq mr True qg0 qg sq_out q_out0
            kv0 kv s_kv sa cz sc att gate o0 ob)
    next
      case False
      have q_last: "shape_at q_inputs (- 1) = Some (last (shape q_inputs))"
      proof -
        have "1 \<le> ndim q_inputs" using n0 by simp
        from shape_at_m1[OF this] show ?thesis
          using n0 by (simp add: ndim_def last_conv_nth)
      qed
      have e: "q_inputs = q'" "kv_inputs = kv'" "b = b'"
        using q1 k1 b1 False by simp_all
      have t: "(last (shape q') \<noteq> R \<and> last (shape q') = q_dim) = False"
        using tu False e by auto
      note q_last = q_last[unfolded e]
      show ?thesis
        unfolding e
        by (simp add: Attention_forward_def Let_def t q_last mc mg mq mr False qg0 qg sq_out q_out0
            kv0 kv s_kv sa cz sc att gate o0 ob)
    qed
    show ?thesis
      apply (rule exI[of _ out0], rule exI[of _ lg0])
      apply (intro conjI allI impI; (elim conjE)?)
          apply (rule sout slg | (rule elg'[unfolded scale_def] eout[unfolded scale_def] fwd; assumption))+
      done
  qed
  show thesis
    by (rule that[OF sQ sK sV eQ eK eV main])
qed

lemma expandable_rev_append:
  "length xs = length ys \<Longrightarrow>
   expandable_rev (xs @ as) (ys @ bs) = (expandable_rev xs ys \<and> expandable_rev as bs)"
  by (induction xs ys rule: list_induct2) auto

lemma expandable_append_suffix:
  "length xs = length ys \<Longrightarrow>
   expandable (as @ xs) (bs @ ys) = (expandable as bs \<and> expandable xs ys)"
  by (auto simp: expandable_def expandable_rev_append)

lemma unsqueeze_m1: "unsqueeze x (- 1) = Some (insert_ones (ndim x) 1 x)"
  by (simp add: unsqueeze_def Let_def)

lemma unsqueeze_m4:
  "3 \<le> ndim x \<Longrightarrow> unsqueeze x (- 4) = Some (insert_ones (ndim x - 3) 1 x)"
  by (auto simp: unsqueeze_def Let_def nat_diff_distrib' intro!: arg_cong[where f = "\<lambda>p. insert_ones p 1 x"])

lemma wrap_dim_lits:
  "1 \<le> n \<Longrightarrow> wrap_dim n (- 1) = Some (n - 1)"
  "2 \<le> n \<Longrightarrow> wrap_dim n (- 2) = Some (n - 2)"
  "3 \<le> n \<Longrightarrow> wrap_dim n (- 3) = Some (n - 3)"
  "4 \<le> n \<Longrightarrow> wrap_dim n (- 4) = Some (n - 4)"
  using wrap_dim_neg[of 1 n] wrap_dim_neg[of 2 n] wrap_dim_neg[of 3 n] wrap_dim_neg[of 4 n]
  by simp_all

lemma weights_layout:
  assumes lg: "shape lg = bs @ [h, n, m]"
  shows "\<exists>l1 l2 w. unsqueeze lg (- 1) = Some l1 \<and> torch_transpose l1 (- 1) (- 4) = Some l2 \<and>
           squeeze l2 (- 4) = Some w \<and> shape w = bs @ [n, m, h] \<and>
           (\<forall>bi qi ki hi. length bi = length bs \<longrightarrow>
              elem w (bi @ [qi, ki, hi]) = elem lg (bi @ [hi, qi, ki]))"
proof -
  define k where "k = length bs"
  define l1 where "l1 = insert_ones (Suc (Suc (Suc k))) 1 lg"
  define l2 where "l2 = swap_dims (Suc (Suc (Suc k))) k l1"
  define w where "w = remove_dim k 0 l2"
  have s1: "shape l1 = bs @ [h, n, m, 1]"
    by (simp add: l1_def insert_ones_def lg k_def)
  have u: "unsqueeze lg (- 1) = Some l1"
    by (simp add: unsqueeze_m1 ndim_def lg l1_def k_def)
  have s2: "shape l2 = bs @ [1, n, m, h]"
    by (simp add: l2_def swap_dims_def s1 k_def nth_append list_update_append)
  have t: "torch_transpose l1 (- 1) (- 4) = Some l2"
    by (simp add: torch_transpose_def ndim_def s1 wrap_dim_lits l2_def k_def)
  have s3: "shape w = bs @ [n, m, h]"
    by (simp add: w_def remove_dim_def s2 k_def)
  have q: "squeeze l2 (- 4) = Some w"
    by (simp add: squeeze_def ndim_def s2 wrap_dim_lits w_def k_def nth_append)
  have e: "elem w (bi @ [qi, ki, hi]) = elem lg (bi @ [hi, qi, ki])"
    if "length bi = length bs" for bi qi ki hi
    using that
    by (simp add: w_def remove_dim_def l2_def swap_dims_def l1_def insert_ones_def k_def
        nth_append list_update_append)
  show ?thesis using u t q s3 e by blast
qed



lemma expandable_unsqueeze_m4:
  assumes e: "expandable sh (bs @ [h, n, m])" and l: "3 \<le> length sh"
  shows "expandable (take (length sh - 3) sh @ replicate (Suc 0) 1 @ drop (length sh - 3) sh)
           (bs @ [1, h, n, m])"
proof -
  let ?p = "take (length sh - 3) sh" and ?t = "drop (length sh - 3) sh"
  have lt: "length ?t = length [h, n, m]" using l by simp
  have "expandable (?p @ ?t) (bs @ [h, n, m])" using e by simp
  then have p: "expandable ?p bs" and t: "expandable ?t [h, n, m]"
    unfolding expandable_append_suffix[OF lt] by simp_all
  have lt4: "length (1 # ?t) = length [1, h, n, m]" using l by simp
  have "expandable (1 # ?t) [1, h, n, m]"
    using t lt by (simp add: expandable_all2)
  then have "expandable (?p @ (1 # ?t)) (bs @ [1, h, n, m])"
    unfolding expandable_append_suffix[OF lt4] using p by simp
  then show ?thesis by simp
qed

lemma Attention_forward_plain:
  assumes M: "self = Attention_init q_dim kv_dim H gating c out_dim 1 w_qg w_kv b_qg b_kv w_o b_o"
    and c: "0 < c" and nk: "0 < nk"
    and q: "shape q_inputs = bs @ [nq, q_dim]" and qd: "q_dim \<noteq> 1"
    and kv: "shape kv_inputs = bs @ [nk, kv_dim]"
  obtains (plain) Q K V where
    "shape Q = bs @ [1, H, nq, c]" "shape K = bs @ [1, H, nk, c]" "shape V = bs @ [1, H, nk, c]"
    "\<And>bi h q cc. valid_index bs bi \<Longrightarrow> h < H \<Longrightarrow> q < nq \<Longrightarrow> cc < c \<Longrightarrow>
        elem Q (bi @ [0, h, q, cc]) =
          proj (insert_ones (ndim q_inputs) 1 q_inputs) w_qg b_qg q_dim 0 bi 0 h q cc"
    "\<And>bi h k cc. valid_index bs bi \<Longrightarrow> h < H \<Longrightarrow> k < nk \<Longrightarrow> cc < c \<Longrightarrow>
        elem K (bi @ [0, h, k, cc]) =
          proj (insert_ones (ndim kv_inputs) 1 kv_inputs) w_kv b_kv kv_dim 0 bi 0 h k cc"
    "\<And>bi h k cc. valid_index bs bi \<Longrightarrow> h < H \<Longrightarrow> k < nk \<Longrightarrow> cc < c \<Longrightarrow>
        elem V (bi @ [0, h, k, cc]) =
          proj (insert_ones (ndim kv_inputs) 1 kv_inputs) w_kv b_kv kv_dim c bi 0 h k cc"
    "\<And>b fwd_cfg junk_o junk_l.
        expandable (shape b) (bs @ [H, nq, nk]) \<Longrightarrow> 3 \<le> ndim b \<Longrightarrow> fwd_cfg_ok fwd_cfg \<Longrightarrow>
        \<exists>out w out' w'.
           Attention_forward self q_inputs kv_inputs (Some b) fwd_cfg junk_o junk_l = Some (out, w) \<and>
           Attention_forward self (insert_ones (ndim q_inputs) 1 q_inputs) (insert_ones (ndim kv_inputs) 1 kv_inputs) (Some (insert_ones (ndim b - 3) 1 b)) fwd_cfg junk_o junk_l = Some (out', w') \<and>
           shape out = bs @ [nq, out_dim] \<and> shape w = bs @ [nq, nk, H] \<and>
           shape out' = bs @ [nq, out_dim, 1] \<and> shape w' = bs @ [1, nq, nk, H] \<and>
           (\<forall>bi h q k. valid_index bs bi \<and> h < H \<and> q < nq \<and> k < nk \<longrightarrow>
              elem w (bi @ [q, k, h]) =
                att_weight Q K (real c powr (- 1 / 2)) (insert_ones (ndim b - 3) 1 b) c nk (bi @ [0, h]) q k) \<and>
           (\<forall>bi q e. valid_index bs bi \<and> q < nq \<and> e < out_dim \<longrightarrow>
              elem out (bi @ [q, e]) =
                (\<Sum>h<H. \<Sum>cc<c.
                   att_out Q K (real c powr (- 1 / 2)) V (insert_ones (ndim b - 3) 1 b) c nk (bi @ [0, h]) q cc *
                   (if gating then sigmoid (proj (insert_ones (ndim q_inputs) 1 q_inputs) w_qg b_qg q_dim c bi 0 h q cc) else 1) *
                   w_o [0, h, cc, e]) + b_o [e, 0]) \<and>
           (\<forall>bi h q k. valid_index bs bi \<and> h < H \<and> q < nq \<and> k < nk \<longrightarrow>
              elem w' (bi @ [0, q, k, h]) = elem w (bi @ [q, k, h])) \<and>
           (\<forall>bi q e. valid_index bs bi \<and> q < nq \<and> e < out_dim \<longrightarrow>
              elem out' (bi @ [q, e, 0]) = elem out (bi @ [q, e]))"
proof -
  define q' where "q' = insert_ones (ndim q_inputs) 1 q_inputs"
  define kv' where "kv' = insert_ones (ndim kv_inputs) 1 kv_inputs"
  have q2: "shape q' = bs @ [nq, q_dim, 1]" and k2: "shape kv' = bs @ [nk, kv_dim, 1]"
    by (simp_all add: q'_def kv'_def insert_ones_def ndim_def q kv)
  show thesis
  proof (rule Attention_forward_core[OF M c nk q2 k2], goal_cases)
    case core: (1 Q K V)
    have main: "\<exists>out w out' w'.
           Attention_forward self q_inputs kv_inputs (Some b) fwd_cfg junk_o junk_l = Some (out, w) \<and>
           Attention_forward self q' kv' (Some (insert_ones (ndim b - 3) 1 b)) fwd_cfg junk_o junk_l = Some (out', w') \<and>
           shape out = bs @ [nq, out_dim] \<and> shape w = bs @ [nq, nk, H] \<and>
           shape out' = bs @ [nq, out_dim, 1] \<and> shape w' = bs @ [1, nq, nk, H] \<and>
           (\<forall>bi h q k. valid_index bs bi \<and> h < H \<and> q < nq \<and> k < nk \<longrightarrow>
              elem w (bi @ [q, k, h]) =
                att_weight Q K (real c powr (- 1 / 2)) (insert_ones (ndim b - 3) 1 b) c nk (bi @ [0, h]) q k) \<and>
           (\<forall>bi q e. valid_index bs bi \<and> q < nq \<and> e < out_dim \<longrightarrow>
              elem out (bi @ [q, e]) =
                (\<Sum>h<H. \<Sum>cc<c.
                   att_out Q K (real c powr (- 1 / 2)) V (insert_ones (ndim b - 3) 1 b) c nk (bi @ [0, h]) q cc *
                   (if gating then sigmoid (proj q' w_qg b_qg q_dim c bi 0 h q cc) else 1) *
                   w_o [0, h, cc, e]) + b_o [e, 0]) \<and>
           (\<forall>bi h q k. valid_index bs bi \<and> h < H \<and> q < nq \<and> k < nk \<longrightarrow>
              elem w' (bi @ [0, q, k, h]) = elem w (bi @ [q, k, h])) \<and>
           (\<forall>bi q e. valid_index bs bi \<and> q < nq \<and> e < out_dim \<longrightarrow>
              elem out' (bi @ [q, e, 0]) = elem out (bi @ [q, e]))"
      if eb: "expandable (shape b) (bs @ [H, nq, nk])" and r3: "3 \<le> ndim b"
        and fc: "fwd_cfg_ok fwd_cfg"
      for b fwd_cfg junk_o junk_l
    proof -
      define b' where "b' = insert_ones (ndim b - 3) 1 b"
      have eb': "expandable (shape b') (bs @ [1, H, nq, nk])"
        using expandable_unsqueeze_m4[OF eb] r3 by (simp add: b'_def insert_ones_def ndim_def)
      have r2: "2 \<le> ndim b'" using r3 by (simp add: b'_def insert_ones_def ndim_def)
      obtain out0 lg0 where
        so: "shape out0 = bs @ [nq, out_dim, 1]" and sl: "shape lg0 = bs @ [1, H, nq, nk]"
        and el: "\<forall>bi r h q k. valid_index bs bi \<and> r < 1 \<and> h < H \<and> q < nq \<and> k < nk \<longrightarrow>
              elem lg0 (bi @ [r, h, q, k]) =
                att_weight Q K (real c powr (- 1 / 2)) b' c nk (bi @ [r, h]) q k"
        and eo: "\<forall>bi q e r. valid_index bs bi \<and> q < nq \<and> e < out_dim \<and> r < 1 \<longrightarrow>
              elem out0 (bi @ [q, e, r]) =
                (\<Sum>h<H. \<Sum>cc<c.
                   att_out Q K (real c powr (- 1 / 2)) V b' c nk (bi @ [r, h]) q cc *
                   (if gating then sigmoid (proj q' w_qg b_qg q_dim c bi r h q cc) else 1) *
                   w_o [r, h, cc, e]) + b_o [e, r]"
        and calls: "\<forall>tu qi kvi b0.
              0 < ndim qi \<and>
              tu = (last (shape qi) \<noteq> 1 \<and> last (shape qi) = q_dim) \<and>
              (if tu then unsqueeze qi (- 1) else Some qi) = Some q' \<and>
              (if tu then unsqueeze kvi (- 1) else Some kvi) = Some kv' \<and>
              (if tu then unsqueeze b0 (- 4) else Some b0) = Some b' \<longrightarrow>
              Attention_forward self qi kvi (Some b0) fwd_cfg junk_o junk_l =
             do {
               (output, logits) \<leftarrow> (if tu
                                    then do {
                                      output \<leftarrow> squeeze out0 (- 1);
                                      logits \<leftarrow> squeeze lg0 (- 4);
                                      Some (output, logits)
                                    }
                                    else Some (out0, lg0));
               l1 \<leftarrow> unsqueeze logits (- 1);
               l2 \<leftarrow> torch_transpose l1 (- 1) (- 4);
               l3 \<leftarrow> squeeze l2 (- 4);
               Some (output, l3)
             }"
        using core(7)[OF eb' r2 fc, of junk_o junk_l]
        by (elim exE conjE) (rule that)
      have "0 < ndim q_inputs"
        "True = (last (shape q_inputs) \<noteq> 1 \<and> last (shape q_inputs) = q_dim)"
        "unsqueeze q_inputs (- 1) = Some q'" "unsqueeze kv_inputs (- 1) = Some kv'"
        "unsqueeze b (- 4) = Some b'"
        using qd by (simp_all add: ndim_def q unsqueeze_m1 unsqueeze_m4[OF r3] q'_def kv'_def b'_def)
      then have fwd: "Attention_forward self q_inputs kv_inputs (Some b) fwd_cfg junk_o junk_l =
             do {
               (output, logits) \<leftarrow> do {
                                      output \<leftarrow> squeeze out0 (- 1);
                                      logits \<leftarrow> squeeze lg0 (- 4);
                                      Some (output, logits)
                                    };
               l1 \<leftarrow> unsqueeze logits (- 1);
               l2 \<leftarrow> torch_transpose l1 (- 1) (- 4);
               l3 \<leftarrow> squeeze l2 (- 4);
               Some (output, l3)
             }"
        using calls[rule_format, of q_inputs True kv_inputs b] by simp
      have "0 < ndim q'" "False = (last (shape q') \<noteq> 1 \<and> last (shape q') = q_dim)"
        by (simp_all add: ndim_def q2)
      then have fwd': "Attention_forward self q' kv' (Some b') fwd_cfg junk_o junk_l =
             do {
               l1 \<leftarrow> unsqueeze lg0 (- 1);
               l2 \<leftarrow> torch_transpose l1 (- 1) (- 4);
               l3 \<leftarrow> squeeze l2 (- 4);
               Some (out0, l3)
             }"
        using calls[rule_format, of q' False kv' b'] by simp
      define out where "out = remove_dim (length bs + 2) 0 out0"
      define lg where "lg = remove_dim (length bs) 0 lg0"
      have s1: "squeeze out0 (- 1) = Some out"
        by (simp add: squeeze_def ndim_def so wrap_dim_lits nth_append out_def)
      have s2: "squeeze lg0 (- 4) = Some lg"
        by (simp add: squeeze_def ndim_def sl wrap_dim_lits nth_append lg_def)
      have sout: "shape out = bs @ [nq, out_dim]" and slg: "shape lg = bs @ [H, nq, nk]"
        by (simp_all add: out_def lg_def remove_dim_def so sl)
      obtain l1 l2 w where u: "unsqueeze lg (- 1) = Some l1"
        and t: "torch_transpose l1 (- 1) (- 4) = Some l2" and s: "squeeze l2 (- 4) = Some w"
        and sw: "shape w = bs @ [nq, nk, H]"
        and ew: "\<And>bi qi ki hi. length bi = length bs \<Longrightarrow>
                   elem w (bi @ [qi, ki, hi]) = elem lg (bi @ [hi, qi, ki])"
        using weights_layout[OF slg] by auto
      have sl': "shape lg0 = (bs @ [1]) @ [H, nq, nk]" by (simp add: sl)
      obtain l1' l2' w' where u': "unsqueeze lg0 (- 1) = Some l1'"
        and t': "torch_transpose l1' (- 1) (- 4) = Some l2'" and s': "squeeze l2' (- 4) = Some w'"
        and sw': "shape w' = bs @ [1, nq, nk, H]"
        and ew': "\<And>bi qi ki hi. length bi = length (bs @ [1]) \<Longrightarrow>
                   elem w' (bi @ [qi, ki, hi]) = elem lg0 (bi @ [hi, qi, ki])"
        using weights_layout[OF sl'] by auto
      have f: "Attention_forward self q_inputs kv_inputs (Some b) fwd_cfg junk_o junk_l = Some (out, w)"
        by (simp add: fwd s1 s2 u t s)
      have f': "Attention_forward self q' kv' (Some b') fwd_cfg junk_o junk_l = Some (out0, w')"
        by (simp add: fwd' u' t' s')
      have lgw: "elem w (bi @ [q, k, h]) = elem lg0 (bi @ [0, h, q, k])"
        if "length bi = length bs" for bi h q k
        using ew[OF that, of q k h] that by (simp add: lg_def remove_dim_def)
      have e1: "elem w (bi @ [q, k, h]) =
                att_weight Q K (real c powr (- 1 / 2)) b' c nk (bi @ [0, h]) q k"
        if "valid_index bs bi" "h < H" "q < nq" "k < nk" for bi h q k
        using lgw[OF valid_index_length[OF that(1)], of q k h] el that by simp
      have oo: "elem out (bi @ [q, e]) = elem out0 (bi @ [q, e, 0])"
        if "length bi = length bs" for bi q e
        using that by (simp add: out_def remove_dim_def)
      have e2: "elem out (bi @ [q, e]) =
                (\<Sum>h<H. \<Sum>cc<c.
                   att_out Q K (real c powr (- 1 / 2)) V b' c nk (bi @ [0, h]) q cc *
                   (if gating then sigmoid (proj q' w_qg b_qg q_dim c bi 0 h q cc) else 1) *
                   w_o [0, h, cc, e]) + b_o [e, 0]"
        if "valid_index bs bi" "q < nq" "e < out_dim" for bi q e
        using oo[OF valid_index_length[OF that(1)], of q e] eo that by simp
      have e3: "elem w' (bi @ [0, q, k, h]) = elem w (bi @ [q, k, h])"
        if "valid_index bs bi" "h < H" "q < nq" "k < nk" for bi h q k
      proof -
        have l: "length bi = length bs" using that(1) by (rule valid_index_length)
        have "length (bi @ [0]) = length (bs @ [1])" using l by simp
        from ew'[OF this, of q k h] lgw[OF l, of q k h] show ?thesis by simp
      qed
      have e4: "elem out0 (bi @ [q, e, 0]) = elem out (bi @ [q, e])"
        if "valid_index bs bi" "q < nq" "e < out_dim" for bi q e
        using oo[OF valid_index_length[OF that(1)], of q e] by simp
      show ?thesis
        unfolding b'_def[symmetric]
        apply (rule exI[of _ out], rule exI[of _ w], rule exI[of _ out0], rule exI[of _ w'])
        apply (intro conjI allI impI; (elim conjE)?)
                 apply (rule f f' sout sw so sw' | (rule e1 e2 e3 e4; assumption))+
        done
    qed
    show thesis
      by (rule that[OF core(1-3) core(4-6)[unfolded q'_def kv'_def] main[unfolded q'_def kv'_def]])
        simp_all
  qed
qed





subsection \<open>\<open>AttentionWEdgeBias.forward\<close>\<close>

lemma normalize_Some:
  "0 < ndim x \<Longrightarrow> utils_normalize x = Some (the (utils_normalize x)) \<and> shape (the (utils_normalize x)) = shape x"
  by (simp add: utils_normalize_def Let_def)

lemma Linear_forward_Some:
  assumes x: "shape x = sh @ [d_in]"
  shows "\<exists>y. Linear_forward (Linear_init d_in d_out w b) x = Some y \<and> shape y = sh @ [d_out] \<and>
           (\<forall>idx j. elem y (idx @ [j]) = (\<Sum>a<d_in. elem x (idx @ [a]) * w [j, a]) + b [j])"
  by (simp add: Linear_forward_def Linear_init_def x ndim_def)

lemma permute_201:
  assumes x: "shape x = [n0, n1, n2]"
  shows "\<exists>y. permute x [2, 0, 1] = Some y \<and> shape y = [n2, n0, n1] \<and>
           (\<forall>i j k. elem y [i, j, k] = elem x [j, k, i])"
  by (simp add: permute_def x ndim_def wrap_dim_def index_of_def upt_rec)

lemma getitem_nones_2:
  assumes m: "shape m = bs @ [n]"
  shows "\<exists>y. getitem_nones_before_last m 2 = Some y \<and> shape y = bs @ [1, 1, n] \<and>
           (\<forall>bi k. length bi = length bs \<longrightarrow> elem y (bi @ [0, 0, k]) = elem m (bi @ [k]))"
  by (simp add: getitem_nones_before_last_def insert_ones_def m ndim_def numeral_2_eq_2)

lemma bidx_append2:
  "length bi = length bs \<Longrightarrow> length idx = length sh \<Longrightarrow>
   bidx (bs @ sh) (bi @ idx) = bidx bs bi @ bidx sh idx"
  by (simp add: bidx_def)

lemma edge_mask_bias:
  assumes e: "shape eb = [H, L, L]" and m: "shape m1 = bs @ [1, 1, L]"
  shows "\<exists>y. binop (+) eb (mask2bias m1) = Some y \<and> shape y = bs @ [H, L, L] \<and>
           (\<forall>bi h q k. valid_index bs bi \<and> h < H \<and> q < L \<and> k < L \<longrightarrow>
              elem y (bi @ [h, q, k]) = elem eb [h, q, k] + (elem m1 (bi @ [0, 0, k]) - 1) * mask_inf)"
proof -
  have b: "broadcast_shapes [H, L, L] (bs @ [Suc 0, Suc 0, L]) = Some (bs @ [H, L, L])"
    by (simp add: broadcast_shapes_def)
  have "bidx [H, L, L] (bi @ [h, q, k]) = [h, q, k] \<and>
        bidx (bs @ [Suc 0, Suc 0, L]) (bi @ [h, q, k]) = bi @ [0, 0, k]"
    if "valid_index bs bi" "h < H" "q < L" "k < L" for bi h q k
  proof -
    have l: "length bi = length bs" using that(1) by (rule valid_index_length)
    have "bidx [H, L, L] (bi @ [h, q, k]) = bidx [H, L, L] [h, q, k]"
      by (rule bidx_append) simp
    moreover have "valid_index [H, L, L] [h, q, k]" using that by simp
    moreover have "bidx (bs @ [Suc 0, Suc 0, L]) (bi @ [h, q, k]) =
        bidx bs bi @ bidx [Suc 0, Suc 0, L] [h, q, k]"
      using l by (intro bidx_append2) simp_all
    moreover have "bidx [Suc 0, Suc 0, L] [h, q, k] = [0, 0, k]"
      using that by (auto simp: bidx_def)
    ultimately show ?thesis using that by (simp add: bidx_valid)
  qed
  then show ?thesis
    by (simp add: binop_def mask2bias_def unop_def e m b)
qed

lemma AttentionWEdgeBias_attend_rows:
  assumes M: "self = AttentionWEdgeBias_init d_node d_edge H gating c w_e b_e
                       w_qg w_kv b_qg b_kv w_o b_o"
    and c: "0 < c" and L: "0 < L" and dn: "d_node \<noteq> 1"
    and n: "shape node_repr = bs @ [L, d_node]" and e: "shape edge_repr = [L, L, d_edge]"
    and m: "shape m = bs @ [L]" and fc: "fwd_cfg_ok fwd_cfg"
  shows "\<exists>nn ne out w.
     utils_normalize node_repr = Some nn \<and> utils_normalize edge_repr = Some ne \<and>
     AttentionWEdgeBias_attend self node_repr edge_repr m fwd_cfg junk_o junk_l = Some (out, w) \<and>
     shape out = bs @ [L, d_node] \<and> shape w = bs @ [L, L, H] \<and>
     (\<forall>bi h q k. valid_index bs bi \<and> h < H \<and> q < L \<and> k < L \<longrightarrow>
        elem w (bi @ [q, k, h]) =
          exp (awe_logit (insert_ones (ndim nn) 1 nn) ne m w_e b_e w_qg b_qg w_kv b_kv
                 d_node d_edge c bi h q k) /
          (\<Sum>j<L. exp (awe_logit (insert_ones (ndim nn) 1 nn) ne m w_e b_e w_qg b_qg w_kv b_kv
                          d_node d_edge c bi h q j)))"
proof -
  define nn where "nn = the (utils_normalize node_repr)"
  define ne where "ne = the (utils_normalize edge_repr)"
  have nn: "utils_normalize node_repr = Some nn" and snn: "shape nn = bs @ [L, d_node]"
    using normalize_Some[of node_repr] by (simp_all add: nn_def ndim_def n)
  have ne: "utils_normalize edge_repr = Some ne" and sne: "shape ne = [L, L] @ [d_edge]"
    using normalize_Some[of edge_repr] by (simp_all add: ne_def ndim_def e)
  have pl: "proj_edge_bias self = Linear_init d_edge H w_e b_e"
    and pa: "awe_attention self = Attention_init d_node d_node H gating c d_node 1
               w_qg w_kv b_qg b_kv w_o b_o"
    by (simp_all add: M AttentionWEdgeBias_init_def)
  obtain pe where pe: "Linear_forward (proj_edge_bias self) ne = Some pe"
    and spe: "shape pe = [L, L, H]"
    and epe: "\<And>idx j. elem pe (idx @ [j]) = (\<Sum>a<d_edge. elem ne (idx @ [a]) * w_e [j, a]) + b_e [j]"
    using Linear_forward_Some[OF sne, of H w_e b_e] unfolding pl by auto
  obtain ebt where ebt: "permute pe [2, 0, 1] = Some ebt" and sebt: "shape ebt = [H, L, L]"
    and eebt: "\<And>i j k. elem ebt [i, j, k] = elem pe [j, k, i]"
    using permute_201[OF spe] by auto
  obtain m1 where m1: "getitem_nones_before_last m 2 = Some m1"
    and sm1: "shape m1 = bs @ [1, 1, L]"
    and em1: "\<And>bi k. length bi = length bs \<Longrightarrow> elem m1 (bi @ [0, 0, k]) = elem m (bi @ [k])"
    using getitem_nones_2[OF m] by auto
  obtain bias where bias: "binop (+) ebt (mask2bias m1) = Some bias"
    and sbias: "shape bias = bs @ [H, L, L]"
    and ebias: "\<And>bi h q k. valid_index bs bi \<Longrightarrow> h < H \<Longrightarrow> q < L \<Longrightarrow> k < L \<Longrightarrow>
       elem bias (bi @ [h, q, k]) = elem ebt [h, q, k] + (elem m1 (bi @ [0, 0, k]) - 1) * mask_inf"
    using edge_mask_bias[OF sebt sm1] by auto
  have eb: "expandable (shape bias) (bs @ [H, L, L])" by (simp add: sbias expandable_refl)
  have r3: "3 \<le> ndim bias" by (simp add: ndim_def sbias)
  define nn' where "nn' = insert_ones (ndim nn) 1 nn"
  define b' where "b' = insert_ones (ndim bias - 3) 1 bias"
  have sb': "shape b' = bs @ [1, H, L, L]"
    by (simp add: b'_def insert_ones_def ndim_def sbias)
  have eb': "elem b' (bi @ [0, h, q, k]) = elem bias (bi @ [h, q, k])"
    if "length bi = length bs" for bi h q k
    using that by (simp add: b'_def insert_ones_def ndim_def sbias)
  show ?thesis
  proof (rule Attention_forward_plain[OF pa c L snn dn snn], goal_cases)
    case plain: (1 Q K V)
    from plain(7)[OF eb r3 fc, of junk_o junk_l]
    obtain out w where
      f: "Attention_forward (awe_attention self) nn nn (Some bias) fwd_cfg junk_o junk_l = Some (out, w)"
      and so: "shape out = bs @ [L, d_node]" and sw: "shape w = bs @ [L, L, H]"
      and ew: "\<forall>bi h q k. valid_index bs bi \<and> h < H \<and> q < L \<and> k < L \<longrightarrow>
              elem w (bi @ [q, k, h]) =
                att_weight Q K (real c powr (- 1 / 2)) b' c L (bi @ [0, h]) q k"
      unfolding b'_def by blast
    have att: "AttentionWEdgeBias_attend self node_repr edge_repr m fwd_cfg junk_o junk_l = Some (out, w)"
      by (simp add: AttentionWEdgeBias_attend_def nn ne pe ebt m1 bias f)
    define sc where "sc = real c powr (- 1 / 2)"
    have lg: "att_logit Q K sc b' c (bi @ [0, h]) q k =
        awe_logit nn' ne m w_e b_e w_qg b_qg w_kv b_kv d_node d_edge c bi h q k"
      if v: "valid_index bs bi" and h: "h < H" and q: "q < L" and k: "k < L" for bi h q k
    proof -
      have l: "length bi = length bs" using v by (rule valid_index_length)
      have vi: "valid_index (bs @ [1, H, L, L]) (bi @ [0, h, q, k])"
        using v h q k l by (simp add: valid_index_append)
      have s: "(\<Sum>v<c. elem Q ((bi @ [0, h]) @ [q, v]) * real c powr (- 1 / 2) *
                        elem K ((bi @ [0, h]) @ [k, v])) =
               (\<Sum>v<c. proj nn' w_qg b_qg d_node 0 bi 0 h q v * (real c powr (- 1 / 2)) *
                        proj nn' w_kv b_kv d_node 0 bi 0 h k v)"
        by (rule sum.cong) (use v h q k in \<open>simp_all add: plain(4,5) nn'_def\<close>)
      have "elem b' (bidx (shape b') ((bi @ [0, h]) @ [q, k])) = elem bias (bi @ [h, q, k])"
        using bidx_valid[OF vi] eb'[OF l] by (simp add: sb')
      also have "\<dots> = (\<Sum>a<d_edge. elem ne [q, k, a] * w_e [h, a]) + b_e [h] +
          (elem m (bi @ [k]) - 1) * mask_inf"
        using ebias[OF v h q k] eebt[of h q k] epe[of "[q, k]" h] em1[OF l, of k] by simp
      finally show ?thesis
        unfolding att_logit_def awe_logit_def sc_def s by simp
    qed
    have we: "elem w (bi @ [q, k, h]) =
          exp (awe_logit nn' ne m w_e b_e w_qg b_qg w_kv b_kv d_node d_edge c bi h q k) /
          (\<Sum>j<L. exp (awe_logit nn' ne m w_e b_e w_qg b_qg w_kv b_kv d_node d_edge c bi h q j))"
      if v: "valid_index bs bi" and h: "h < H" and q: "q < L" and k: "k < L" for bi h q k
    proof -
      have "(\<Sum>j<L. exp (att_logit Q K sc b' c (bi @ [0, h]) q j)) =
            (\<Sum>j<L. exp (awe_logit nn' ne m w_e b_e w_qg b_qg w_kv b_kv d_node d_edge c bi h q j))"
        by (rule sum.cong) (use v h q in \<open>simp_all add: lg\<close>)
      then show ?thesis
        using ew[folded sc_def] v h q k by (simp add: att_weight_def lg)
    qed
    show ?case
      apply (rule exI[of _ nn], rule exI[of _ ne], rule exI[of _ out], rule exI[of _ w])
      apply (intro conjI allI impI; (elim conjE)?)
           apply (rule nn ne att so sw | (rule we[unfolded nn'_def]; assumption))+
      done
  qed
qed

text \<open>
  C3. For node features of shape \<open>(..., L, d_node)\<close>, edge features of shape
  \<open>(L, L, d_edge)\<close> and a mask of shape \<open>(..., L)\<close>, with \<open>L \<ge> 1\<close>, \<open>c \<ge> 1\<close> and
  \<open>d_node \<noteq> 1\<close>, \<open>AttentionWEdgeBias.forward\<close> returns a tensor of shape
  \<open>(..., L, d_node)\<close>, for every head count.
\<close>

theorem AttentionWEdgeBias_forward_shape:
  assumes c: "0 < c" and L: "0 < L" and dn: "d_node \<noteq> 1"
    and n: "shape node_repr = bs @ [L, d_node]" and e: "shape edge_repr = [L, L, d_edge]"
    and m: "shape m = bs @ [L]" and fc: "fwd_cfg_ok fwd_cfg"
  shows "\<exists>out. AttentionWEdgeBias_forward
                 (AttentionWEdgeBias_init d_node d_edge H gating c w_e b_e w_qg w_kv b_qg b_kv w_o b_o)
                 node_repr edge_repr m fwd_cfg junk_o junk_l = Some out \<and>
               shape out = bs @ [L, d_node]"
  using AttentionWEdgeBias_attend_rows[OF refl c L dn n e m fc,
      of H gating w_e b_e w_qg w_kv b_qg b_kv w_o b_o junk_o junk_l]
  by (auto simp: AttentionWEdgeBias_forward_def)

theorem AttentionWEdgeBias_forward_shape_witness:
  "\<exists>out. AttentionWEdgeBias_forward
            (AttentionWEdgeBias_init 3 2 2 True 2 (\<lambda>i. 1) (\<lambda>i. 0) (\<lambda>i. 1) (\<lambda>i. 1) (\<lambda>i. 0)
               (\<lambda>i. 0) (\<lambda>i. 1) (\<lambda>i. 0))
            (ramp [5, 4, 3]) (ramp [4, 4, 2]) (full [5, 4] 1) None (\<lambda>i. 0) (\<lambda>i. 0) = Some out \<and>
          shape out = [5, 4, 3]"
  using AttentionWEdgeBias_forward_shape[of 2 4 3 "ramp [5, 4, 3]" "[5]" "ramp [4, 4, 2]" 2
      "full [5, 4] 1" None 2 True "\<lambda>i. 1" "\<lambda>i. 0" "\<lambda>i. 1" "\<lambda>i. 1" "\<lambda>i. 0" "\<lambda>i. 0" "\<lambda>i. 1" "\<lambda>i. 0"
      "\<lambda>i. 0" "\<lambda>i. 0"]
  by (simp add: ramp_def full_def fwd_cfg_ok_def)

theorem AttentionWEdgeBias_forward_batched_counterexample:
  "AttentionWEdgeBias_forward
     (AttentionWEdgeBias_init 3 1 1 False 1 (\<lambda>i. 0) (\<lambda>i. 0) (\<lambda>i. 0) (\<lambda>i. 0) (\<lambda>i. 0)
        (\<lambda>i. 0) (\<lambda>i. 0) (\<lambda>i. 0))
     (full [2, 2, 3] 1) (full [2, 2, 2, 1] 1) (full [2, 2] 1) None (\<lambda>i. 0) (\<lambda>i. 0) = None"
  by (simp add: AttentionWEdgeBias_forward_def AttentionWEdgeBias_attend_def
      AttentionWEdgeBias_init_def utils_normalize_def Linear_forward_def Linear_init_def permute_def
      full_def ndim_def Let_def)

lemma softmax_ratio_bound:
  fixes z z' :: "nat \<Rightarrow> real"
  assumes p: "p < L" and u: "u < L"
    and zp: "z p = r p - M" and zu: "z u = r u" and z'p: "z' p = r p" and z'u: "z' u = r u"
  shows "0 < exp (z' u) / (\<Sum>j<L. exp (z' j))"
    and "exp (z p) / (\<Sum>j<L. exp (z j)) \<le>
         exp (- M) * ((exp (z' p) / (\<Sum>j<L. exp (z' j))) / (exp (z' u) / (\<Sum>j<L. exp (z' j))))"
proof -
  have L: "0 < L" using p by simp
  have S: "0 < (\<Sum>j<L. exp (z j))" and S': "0 < (\<Sum>j<L. exp (z' j))"
    using sum_exp_pos[OF L] by simp_all
  show "0 < exp (z' u) / (\<Sum>j<L. exp (z' j))" using S' by simp
  have "exp (z u) \<le> (\<Sum>j<L. exp (z j))"
    using member_le_sum[of u "{..<L}" "\<lambda>j. exp (z j)"] u by simp
  then have wu: "exp (z u) / (\<Sum>j<L. exp (z j)) \<le> 1" using S by simp
  have "(exp (z' p) / (\<Sum>j<L. exp (z' j))) / (exp (z' u) / (\<Sum>j<L. exp (z' j))) =
        exp (z' p) / exp (z' u)"
    using S' by simp
  also have "\<dots> = exp (r p - r u)" by (simp add: z'p z'u exp_diff)
  finally have ratio: "(exp (z' p) / (\<Sum>j<L. exp (z' j))) / (exp (z' u) / (\<Sum>j<L. exp (z' j))) =
      exp (r p - r u)" .
  have "exp (z p) / (\<Sum>j<L. exp (z j)) =
        exp (- M) * exp (r p - r u) * (exp (z u) / (\<Sum>j<L. exp (z j)))"
    by (simp add: zp zu exp_diff exp_minus field_simps)
  also have "\<dots> \<le> exp (- M) * exp (r p - r u) * 1"
    by (intro mult_left_mono wu) simp
  finally show "exp (z p) / (\<Sum>j<L. exp (z j)) \<le>
         exp (- M) * ((exp (z' p) / (\<Sum>j<L. exp (z' j))) / (exp (z' u) / (\<Sum>j<L. exp (z' j))))"
    unfolding ratio by simp
qed

text \<open>
  C8. For inputs as in C3 and a mask \<open>m\<close> with a masked key \<open>p\<close> (value 0) and an unmasked
  key \<open>u\<close> (value 1) in batch entry \<open>bi\<close>: for every query \<open>q\<close> and head \<open>h\<close>, the
  attention weight of \<open>p\<close> is at most \<open>exp(-1e9)\<close> times the ratio between the weights that
  \<open>p\<close> and \<open>u\<close> get in the same call under a mask \<open>m'\<close> that masks neither of them.
\<close>

theorem AttentionWEdgeBias_masked_weight:
  assumes c: "0 < c" and dn: "d_node \<noteq> 1"
    and n: "shape node_repr = bs @ [L, d_node]" and e: "shape edge_repr = [L, L, d_edge]"
    and m: "shape m = bs @ [L]" and m': "shape m' = bs @ [L]" and fc: "fwd_cfg_ok fwd_cfg"
    and v: "valid_index bs bi" and p: "p < L" and u: "u < L" and q: "q < L" and h: "h < H"
    and mp: "elem m (bi @ [p]) = 0" and mu: "elem m (bi @ [u]) = 1"
    and m'p: "elem m' (bi @ [p]) = 1" and m'u: "elem m' (bi @ [u]) = 1"
  shows "\<exists>out w out' w'.
           AttentionWEdgeBias_attend
             (AttentionWEdgeBias_init d_node d_edge H gating c w_e b_e w_qg w_kv b_qg b_kv w_o b_o)
             node_repr edge_repr m fwd_cfg junk_o junk_l = Some (out, w) \<and>
           AttentionWEdgeBias_attend
             (AttentionWEdgeBias_init d_node d_edge H gating c w_e b_e w_qg w_kv b_qg b_kv w_o b_o)
             node_repr edge_repr m' fwd_cfg junk_o junk_l = Some (out', w') \<and>
           0 < elem w' (bi @ [q, u, h]) \<and>
           elem w (bi @ [q, p, h]) \<le>
             exp (- mask_inf) * (elem w' (bi @ [q, p, h]) / elem w' (bi @ [q, u, h]))"
proof -
  let ?M = "AttentionWEdgeBias_init d_node d_edge H gating c w_e b_e w_qg w_kv b_qg b_kv w_o b_o"
  have L: "0 < L" using p by simp
  obtain nn ne out w where nn: "utils_normalize node_repr = Some nn" and ne: "utils_normalize edge_repr = Some ne"
    and a: "AttentionWEdgeBias_attend ?M node_repr edge_repr m fwd_cfg junk_o junk_l = Some (out, w)"
    and ew: "\<And>k. k < L \<Longrightarrow> elem w (bi @ [q, k, h]) =
          exp (awe_logit (insert_ones (ndim nn) 1 nn) ne m w_e b_e w_qg b_qg w_kv b_kv
                 d_node d_edge c bi h q k) /
          (\<Sum>j<L. exp (awe_logit (insert_ones (ndim nn) 1 nn) ne m w_e b_e w_qg b_qg w_kv b_kv
                          d_node d_edge c bi h q j))"
    using AttentionWEdgeBias_attend_rows[OF refl c L dn n e m fc,
        of H gating w_e b_e w_qg w_kv b_qg b_kv w_o b_o junk_o junk_l] v q h by blast
  obtain nn2 ne2 out' w' where nn2: "utils_normalize node_repr = Some nn2"
    and ne2: "utils_normalize edge_repr = Some ne2"
    and a': "AttentionWEdgeBias_attend ?M node_repr edge_repr m' fwd_cfg junk_o junk_l = Some (out', w')"
    and ew2: "\<And>k. k < L \<Longrightarrow> elem w' (bi @ [q, k, h]) =
          exp (awe_logit (insert_ones (ndim nn2) 1 nn2) ne2 m' w_e b_e w_qg b_qg w_kv b_kv
                 d_node d_edge c bi h q k) /
          (\<Sum>j<L. exp (awe_logit (insert_ones (ndim nn2) 1 nn2) ne2 m' w_e b_e w_qg b_qg w_kv b_kv
                          d_node d_edge c bi h q j))"
    using AttentionWEdgeBias_attend_rows[OF refl c L dn n e m' fc,
        of H gating w_e b_e w_qg w_kv b_qg b_kv w_o b_o junk_o junk_l] v q h by blast
  have same: "nn2 = nn" "ne2 = ne" using nn nn2 ne ne2 by simp_all
  define z where "z k = awe_logit (insert_ones (ndim nn) 1 nn) ne m w_e b_e w_qg b_qg w_kv b_kv
                 d_node d_edge c bi h q k" for k
  define z' where "z' k = awe_logit (insert_ones (ndim nn) 1 nn) ne m' w_e b_e w_qg b_qg w_kv b_kv
                 d_node d_edge c bi h q k" for k
  define r where "r k = z' k - (elem m' (bi @ [k]) - 1) * mask_inf" for k
  have zr: "z k = r k + (elem m (bi @ [k]) - 1) * mask_inf" for k
    by (simp add: z_def z'_def r_def awe_logit_def)
  have f: "z p = r p - mask_inf" "z u = r u" "z' p = r p" "z' u = r u"
    using zr[of p] zr[of u] by (simp_all add: mp mu r_def m'p m'u)
  have wz: "elem w (bi @ [q, k, h]) = exp (z k) / (\<Sum>j<L. exp (z j))" if "k < L" for k
    using ew[OF that] by (simp add: z_def)
  have wz': "elem w' (bi @ [q, k, h]) = exp (z' k) / (\<Sum>j<L. exp (z' j))" if "k < L" for k
    using ew2[OF that] by (simp add: z'_def same)
  have "0 < elem w' (bi @ [q, u, h])"
    and "elem w (bi @ [q, p, h]) \<le>
             exp (- mask_inf) * (elem w' (bi @ [q, p, h]) / elem w' (bi @ [q, u, h]))"
    using softmax_ratio_bound[OF p u f] by (simp_all add: wz[OF p] wz'[OF p] wz'[OF u])
  then show ?thesis using a a' by blast
qed

theorem AttentionWEdgeBias_masked_weight_witness:
  "\<exists>out w out' w'.
     AttentionWEdgeBias_attend
       (AttentionWEdgeBias_init 3 2 1 False 1 (\<lambda>i. 1) (\<lambda>i. 0) (\<lambda>i. 1) (\<lambda>i. 1) (\<lambda>i. 0)
          (\<lambda>i. 0) (\<lambda>i. 1) (\<lambda>i. 0))
       (ramp [2, 3]) (ramp [2, 2, 2]) (ramp [2]) None (\<lambda>i. 0) (\<lambda>i. 0) = Some (out, w) \<and>
     AttentionWEdgeBias_attend
       (AttentionWEdgeBias_init 3 2 1 False 1 (\<lambda>i. 1) (\<lambda>i. 0) (\<lambda>i. 1) (\<lambda>i. 1) (\<lambda>i. 0)
          (\<lambda>i. 0) (\<lambda>i. 1) (\<lambda>i. 0))
       (ramp [2, 3]) (ramp [2, 2, 2]) (full [2] 1) None (\<lambda>i. 0) (\<lambda>i. 0) = Some (out', w') \<and>
     0 < elem w' [0, 1, 0] \<and>
     elem w [0, 0, 0] \<le> exp (- mask_inf) * (elem w' [0, 0, 0] / elem w' [0, 1, 0])"
  using AttentionWEdgeBias_masked_weight[where c = 1 and d_node = 3 and node_repr = "ramp [2, 3]"
      and bs = "[]" and L = 2 and edge_repr = "ramp [2, 2, 2]" and d_edge = 2 and m = "ramp [2]"
      and m' = "full [2] 1" and fwd_cfg = None and bi = "[]" and p = 0 and u = 1 and q = 0
      and h = 0 and H = 1 and gating = False and w_e = "\<lambda>i. 1" and b_e = "\<lambda>i. 0"
      and w_qg = "\<lambda>i. 1" and w_kv = "\<lambda>i. 1" and b_qg = "\<lambda>i. 0" and b_kv = "\<lambda>i. 0"
      and w_o = "\<lambda>i. 1" and b_o = "\<lambda>i. 0" and junk_o = "\<lambda>i. 0" and junk_l = "\<lambda>i. 0"]
  by (simp add: ramp_def full_def fwd_cfg_ok_def)

lemma sum_lessThan_2: "(\<Sum>a<(2::nat). f a) = f 0 + (f 1 :: real)"
  by (simp add: numeral_2_eq_2)

text \<open>
  A masked key with weight one half: the edge projection favours the masked key by exactly
  the constant that \<open>mask2bias\<close> subtracts.
\<close>

theorem AttentionWEdgeBias_masked_weight_counterexample:
  "\<exists>out w.
     AttentionWEdgeBias_attend
       (AttentionWEdgeBias_init 3 2 1 False 1
          (\<lambda>i. if i ! 1 = 0 then mask_inf * (1 + norm_eps) / 2 else 0) (\<lambda>i. 0)
          (\<lambda>i. 0) (\<lambda>i. 0) (\<lambda>i. 0) (\<lambda>i. 0) (\<lambda>i. 0) (\<lambda>i. 0))
       (full [2, 3] 1) \<lparr>shape = [2, 2, 2], elem = (\<lambda>i. if i ! 1 = i ! 2 then 2 else 0)\<rparr>
       (ramp [2]) None (\<lambda>i. 0) (\<lambda>i. 0) = Some (out, w) \<and>
     elem (ramp [2]) [0] = 0 \<and> elem (ramp [2]) [1] = 1 \<and> elem w [0, 0, 0] = 1 / 2"
proof -
  let ?E = "\<lparr>shape = [2, 2, 2], elem = (\<lambda>i. if i ! 1 = i ! 2 then 2 else 0 :: real)\<rparr>"
  let ?we = "\<lambda>i::nat list. if i ! 1 = 0 then mask_inf * (1 + norm_eps) / 2 else 0"
  let ?z = "\<lambda>i::nat list. 0::real"
  have fc: "fwd_cfg_ok None" by (simp add: fwd_cfg_ok_def)
  have sh: "shape (full [2, 3] 1) = [] @ [2, 3]" "shape ?E = [2, 2, 2]" "shape (ramp [2]) = [] @ [2]"
    by (simp_all add: full_def ramp_def)
  have pos: "(0::nat) < 1" "(0::nat) < 2" "(3::nat) \<noteq> 1" by simp_all
  from AttentionWEdgeBias_attend_rows[OF refl pos sh fc, where H = 1 and gating = False
        and w_e = ?we and b_e = ?z and w_qg = ?z and w_kv = ?z and b_qg = ?z and b_kv = ?z
        and w_o = ?z and b_o = ?z and junk_o = ?z and junk_l = ?z]
  obtain nn ne out w where ne: "utils_normalize ?E = Some ne"
    and a: "AttentionWEdgeBias_attend
       (AttentionWEdgeBias_init 3 2 1 False 1 ?we ?z ?z ?z ?z ?z ?z ?z)
       (full [2, 3] 1) ?E (ramp [2]) None ?z ?z = Some (out, w)"
    and all: "\<forall>bi h q k. valid_index [] bi \<and> h < 1 \<and> q < 2 \<and> k < 2 \<longrightarrow>
        elem w (bi @ [q, k, h]) =
          exp (awe_logit (insert_ones (ndim nn) 1 nn) ne (ramp [2]) ?we ?z ?z ?z ?z ?z 3 2 1 bi h q k) /
          (\<Sum>j<2. exp (awe_logit (insert_ones (ndim nn) 1 nn) ne (ramp [2]) ?we ?z ?z ?z ?z ?z
                          3 2 1 bi h q j))"
    by (elim exE conjE) (rule that)
  define zf where "zf = awe_logit (insert_ones (ndim nn) 1 nn) ne (ramp [2]) ?we ?z ?z ?z ?z ?z
                          3 2 1 [] 0 0"
  have ew: "elem w [0, 0, 0] = exp (zf 0) / (\<Sum>j<2. exp (zf j))"
    using all[rule_format, of "[]" 0 0 0] by (simp add: zf_def)
  have eps: "0 < 1 + norm_eps" by (simp add: norm_eps_def)
  have n0: "elem ne [0, 0, 0] = 1 / (1 + norm_eps)"
    and n1: "elem ne [0, Suc 0, 0] = - 1 / (1 + norm_eps)"
    using ne by (auto simp: utils_normalize_def ndim_def Let_def sum_lessThan_2)
  have z0: "zf 0 = - mask_inf / 2"
    using eps by (simp add: zf_def awe_logit_def proj_def sum_lessThan_2 n0 ramp_def)
  have z1: "zf (Suc 0) = - mask_inf / 2"
    using eps by (simp add: zf_def awe_logit_def proj_def sum_lessThan_2 n1 ramp_def)
  have "elem w [0, 0, 0] = 1 / 2"
    using ew by (simp add: sum_lessThan_2 z0 z1)
  then show ?thesis using a by (simp add: ramp_def)
qed

subsection \<open>The frame of \<open>attention\<close>\<close>

lemma softmax_st_rel:
  assumes x: "x < length s"
  shows "rel_option (\<lambda>(s', r) y. r = x \<and> s' ! x = y \<and> length s \<le> length s' \<and>
                        (\<forall>a<length s. a \<noteq> x \<longrightarrow> s' ! a = s ! a))
           (softmax_st s x d True) (softmax (s ! x) d True)"
  using x
  by (auto simp: softmax_st_def softmax_def alloc_def nth_append Let_def
      split: Option.bind_splits)

lemma read_append: "fst r < length s \<Longrightarrow> read (s @ t) r = read s r"
  by (simp add: read_def nth_append)

lemma private_attention_st_rel:
  assumes q: "fst query < length s" and k: "fst key < length s"
    and v: "fst value < length s" and b: "fst bias < length s"
  shows "rel_option (\<lambda>(s', out, attn) (t_out, t_attn).
                        s' ! out = t_out \<and> s' ! attn = t_attn \<and> out < length s' \<and>
                        attn < length s' \<and> length s \<le> out \<and> length s \<le> attn \<and> out \<noteq> attn \<and>
                        length s \<le> length s' \<and> (\<forall>a<length s. s' ! a = s ! a))
           (private_attention_st s query key scale value bias)
           (private_attention (read s query) (read s key) scale (read s value) (read s bias))"
proof -
  let ?sc = "unop (\<lambda>v. v * scale) (read s query)"
  let ?s1 = "s @ [?sc]"
  show ?thesis
  proof (cases "einsum (Dots ''id'') (Dots ''jd'') ''ij'' ?sc (read s key)")
    case None
    then show ?thesis
      using k by (simp add: private_attention_st_def private_attention_def alloc_def read_append)
  next
    case (Some lg)
    let ?s2 = "?s1 @ [lg]"
    show ?thesis
    proof (cases "binop (+) lg (read s bias)")
      case None
      then show ?thesis
        using k b Some
        by (simp add: private_attention_st_def private_attention_def alloc_def read_append)
    next
      case x: (Some x)
      let ?s3 = "?s2 @ [x]"
      let ?xa = "Suc (Suc (length s))"
      have xa: "?xa < length ?s3" by simp
      have rd: "?s3 ! ?xa = x" by (simp add: nth_append)
      from softmax_st_rel[OF xa, of "- 1"]
      have r: "rel_option (\<lambda>(s', r) y. r = ?xa \<and> s' ! ?xa = y \<and> length ?s3 \<le> length s' \<and>
                        (\<forall>a<length ?s3. a \<noteq> ?xa \<longrightarrow> s' ! a = ?s3 ! a))
           (softmax_st ?s3 ?xa (- 1) True) (softmax x (- 1) True)"
        unfolding rd .
      show ?thesis
      proof (cases "softmax x (- 1) True")
        case None
        then have "softmax_st ?s3 ?xa (- 1) True = None" using r by (cases "softmax_st ?s3 ?xa (- 1) True") auto
        then show ?thesis
          using k b Some x None
          by (simp add: private_attention_st_def private_attention_def alloc_def read_append)
      next
        case a: (Some attn)
        then obtain s4 where s4: "softmax_st ?s3 ?xa (- 1) True = Some (s4, ?xa)"
          and s4x: "s4 ! ?xa = attn" and l4: "length ?s3 \<le> length s4"
          and f4: "\<forall>a<length ?s3. a \<noteq> ?xa \<longrightarrow> s4 ! a = ?s3 ! a"
          using r by (cases "softmax_st ?s3 ?xa (- 1) True") auto
        have old: "s4 ! a = s ! a" if "a < length s" for a
          using f4 that by (simp add: nth_append)
        have rv: "read s4 value = read s value" "read s4 key = read s key"
          using v k old by (simp_all add: read_def)
        show ?thesis
        proof (cases "einsum (Dots ''ij'') (Dots ''jd'') ''id'' attn (read s value)")
          case None
          then show ?thesis
            using k b Some x a s4 s4x rv
            by (simp add: private_attention_st_def private_attention_def alloc_def read_append)
        next
          case o: (Some out)
          show ?thesis
            using k b Some x a s4 s4x rv o l4 old
            by (auto simp: private_attention_st_def private_attention_def alloc_def read_append
                nth_append)
        qed
      qed
    qed
  qed
qed

lemma rel_option_None_left:
  "rel_option R x None \<Longrightarrow> x = None"
  by (cases x) auto

lemma attention_loop_st_rel:
  assumes k: "fst key < n0" and v: "fst value < n0" and b: "fst bias < n0"
    and ch: "\<forall>r\<in>set chunks. fst r < n0"
    and o1: "n0 \<le> output" and l1: "n0 \<le> logits" and ol: "output \<noteq> logits"
    and o2: "output < length s" and l2: "logits < length s"
  shows "rel_option (\<lambda>(s', o', l') (t_out, t_lg).
                        o' = output \<and> l' = logits \<and> s' ! output = t_out \<and> s' ! logits = t_lg \<and>
                        length s \<le> length s' \<and> (\<forall>a<n0. s' ! a = s ! a))
           (attention_loop_st key scale value bias q_length c i chunks (s, output, logits))
           (attention_loop (read s key) scale (read s value) (read s bias) q_length c i
              (map (read s) chunks) (s ! output, s ! logits))"
  using ch o2 l2
proof (induction chunks arbitrary: s i)
  case Nil
  then show ?case by simp
next
  case (Cons q_i rest)
  let ?start = "i * c" and ?stop = "(i + 1) * c"
  have n0s: "n0 \<le> length s" using o1 Cons.prems(2) by simp
  have qi: "fst q_i < length s" and kk: "fst key < length s" and vv: "fst value < length s"
    and bb: "fst bias < length s"
    using Cons.prems(1) k v b n0s by auto
  show ?case
  proof (cases "shape_at (read s bias) (- 2)")
    case None
    then show ?thesis by simp
  next
    case n: (Some n)
    define b_i where "b_i = (if n \<noteq> q_length then Some bias
               else map_option
                      (\<lambda>_. (fst bias, (\<lambda>t. the (getitem_rows (snd bias t) ?start ?stop))))
                      (getitem_rows (read s bias) ?start ?stop))"
    define tb where "tb = (if n \<noteq> q_length then Some (read s bias)
                           else getitem_rows (read s bias) ?start ?stop)"
    have bt: "rel_option (\<lambda>r t. fst r = fst bias \<and> read s r = t) b_i tb"
      by (cases "getitem_rows (read s bias) ?start ?stop") (auto simp: b_i_def tb_def read_def)
    have eq_st: "attention_loop_st key scale value bias q_length c i (q_i # rest) (s, output, logits) =
        do {
          rb \<leftarrow> b_i;
          (s, res, attn) \<leftarrow> private_attention_st s q_i key scale value rb;
          output' \<leftarrow> setitem_rows (s ! output) ?start ?stop (s ! res);
          let s = s[output := output'];
          logits' \<leftarrow> setitem_rows (s ! logits) ?start ?stop (s ! attn);
          let s = s[logits := logits'];
          attention_loop_st key scale value bias q_length c (i + 1) rest (s, output, logits)
        }"
      by (simp add: n Let_def b_i_def)
    have eq: "attention_loop (read s key) scale (read s value) (read s bias) q_length c i
                  (map (read s) (q_i # rest)) (s ! output, s ! logits) =
        do {
          t \<leftarrow> tb;
          (res, attn) \<leftarrow> private_attention (read s q_i) (read s key) scale (read s value) t;
          output' \<leftarrow> setitem_rows (s ! output) ?start ?stop res;
          logits' \<leftarrow> setitem_rows (s ! logits) ?start ?stop attn;
          attention_loop (read s key) scale (read s value) (read s bias) q_length c (i + 1)
            (map (read s) rest) (output', logits')
        }"
      by (simp add: n Let_def tb_def)
    have main: "rel_option (\<lambda>(s', o', l') (t_out, t_lg).
                        o' = output \<and> l' = logits \<and> s' ! output = t_out \<and> s' ! logits = t_lg \<and>
                        length s \<le> length s' \<and> (\<forall>a<n0. s' ! a = s ! a))
        (do {
          rb \<leftarrow> b_i;
          (s, res, attn) \<leftarrow> private_attention_st s q_i key scale value rb;
          output' \<leftarrow> setitem_rows (s ! output) ?start ?stop (s ! res);
          let s = s[output := output'];
          logits' \<leftarrow> setitem_rows (s ! logits) ?start ?stop (s ! attn);
          let s = s[logits := logits'];
          attention_loop_st key scale value bias q_length c (i + 1) rest (s, output, logits)
        })
        (do {
          t \<leftarrow> tb;
          (res, attn) \<leftarrow> private_attention (read s q_i) (read s key) scale (read s value) t;
          output' \<leftarrow> setitem_rows (s ! output) ?start ?stop res;
          logits' \<leftarrow> setitem_rows (s ! logits) ?start ?stop attn;
          attention_loop (read s key) scale (read s value) (read s bias) q_length c (i + 1)
            (map (read s) rest) (output', logits')
        })"
    proof (cases tb)
      case None
      then have "b_i = None" using bt by (auto dest: rel_option_None_left)
      then show ?thesis
        using None by simp
    next
      case t: (Some tbi)
      then obtain rb where rb: "b_i = Some rb" and frb: "fst rb = fst bias" and rrb: "read s rb = tbi"
        using bt by (cases b_i) auto
      have rbl: "fst rb < length s" using frb bb by simp
      note pa = private_attention_st_rel[OF qi kk vv rbl, of scale, unfolded rrb]
      show ?thesis
      proof (cases "private_attention (read s q_i) (read s key) scale (read s value) tbi")
        case None
        then have "private_attention_st s q_i key scale value rb = None"
          using pa by (auto dest: rel_option_None_left)
        then show ?thesis
          using None rb t by simp
      next
        case p: (Some ra)
        obtain t_res t_attn where ra: "ra = (t_res, t_attn)" by (cases ra)
        obtain s1 res attn where ps: "private_attention_st s q_i key scale value rb = Some (s1, res, attn)"
          and r1: "s1 ! res = t_res" and a1: "s1 ! attn = t_attn"
          and rl: "length s \<le> res" and al: "length s \<le> attn"
          and ls1: "length s \<le> length s1" and old1: "\<forall>a<length s. s1 ! a = s ! a"
          using pa p ra by (cases "private_attention_st s q_i key scale value rb") auto
        have so: "s1 ! output = s ! output" and sl: "s1 ! logits = s ! logits"
          using old1 Cons.prems(2,3) by simp_all
        show ?thesis
        proof (cases "setitem_rows (s ! output) ?start ?stop t_res")
          case None
          then show ?thesis
            using rb t ps p ra r1 so
            by (simp add: Let_def)
        next
          case o': (Some out')
          let ?s2 = "s1[output := out']"
          have s2l: "?s2 ! logits = s ! logits" using ol sl by simp
          have s2a: "?s2 ! attn = t_attn" using a1 al Cons.prems(2) by simp
          show ?thesis
          proof (cases "setitem_rows (s ! logits) ?start ?stop t_attn")
            case None
            then show ?thesis
              using rb t ps p ra r1 so o' s2l s2a
              by (simp add: Let_def)
          next
            case l': (Some lg')
            let ?s3 = "?s2[logits := lg']"
            have len3: "length ?s3 = length s1" by simp
            have o3: "output < length ?s3" and l3: "logits < length ?s3"
              using Cons.prems(2,3) ls1 by simp_all
            have old3: "?s3 ! a = s ! a" if "a < n0" for a
              using that o1 l1 old1 n0s by simp
            have rd3: "read ?s3 r = read s r" if "fst r < n0" for r
              using old3[OF that] by (simp add: read_def)
            have so3: "?s3 ! output = out'" and sl3: "?s3 ! logits = lg'"
              using ol o3 l3 by simp_all
            have chr: "\<forall>r\<in>set rest. fst r < n0" using Cons.prems(1) by simp
            have mp: "map (read ?s3) rest = map (read s) rest"
              using chr by (auto simp: rd3)
            note ih = Cons.IH[OF chr o3 l3, of "i + 1", unfolded rd3[OF k] rd3[OF v] rd3[OF b] mp so3 sl3]
            have step_st: "attention_loop_st key scale value bias q_length c i (q_i # rest) (s, output, logits) =
                attention_loop_st key scale value bias q_length c (i + 1) rest (?s3, output, logits)"
              unfolding eq_st using rb ps r1 so o' s2l s2a l'
              by (simp add: Let_def)
            have step: "attention_loop (read s key) scale (read s value) (read s bias) q_length c i
                  (map (read s) (q_i # rest)) (s ! output, s ! logits) =
                attention_loop (read s key) scale (read s value) (read s bias) q_length c (i + 1)
                  (map (read s) rest) (out', lg')"
              unfolding eq using t p ra o' l' by (simp add: Let_def)
            have "rel_option (\<lambda>(s', o', l') (t_out, t_lg).
                        o' = output \<and> l' = logits \<and> s' ! output = t_out \<and> s' ! logits = t_lg \<and>
                        length s \<le> length s' \<and> (\<forall>a<n0. s' ! a = s ! a))
                (attention_loop_st key scale value bias q_length c (i + 1) rest (?s3, output, logits))
                (attention_loop (read s key) scale (read s value) (read s bias) q_length c (i + 1)
                  (map (read s) rest) (out', lg'))"
              using ih ls1 old3
              by (auto simp: option.rel_sel split: prod.splits)
            then show ?thesis unfolding step_st[unfolded eq_st] step[unfolded eq] .
          qed
        qed
      qed
    qed
    show ?thesis unfolding eq_st eq by (rule main)
  qed
qed

lemma attention_st_rel:
  assumes q: "query < length s" and k: "key < length s" and v: "value < length s"
    and b: "bias < length s"
  shows "rel_option (\<lambda>(s', out, lg) (t_out, t_lg).
                        s' ! out = t_out \<and> s' ! lg = t_lg \<and> length s \<le> length s' \<and>
                        (\<forall>a<length s. s' ! a = s ! a))
           (attention_st s query key scale value bias subbatch_size junk_o junk_l)
           (attention (s ! query) (s ! key) scale (s ! value) (s ! bias) subbatch_size junk_o junk_l)"
proof (cases "shape_at (s ! query) (- 2)")
  case None
  then show ?thesis by (simp add: attention_st_def attention_def)
next
  case ql: (Some q_length)
  show ?thesis
  proof (cases "shape_at (s ! key) (- 2)")
    case None
    then show ?thesis using ql by (simp add: attention_st_def attention_def)
  next
    case kl: (Some k_length)
    show ?thesis
    proof (cases "shape_at (s ! value) (- 1)")
      case None
      then show ?thesis using ql kl by (simp add: attention_st_def attention_def)
    next
      case vd: (Some v_dim)
      define c where "c = (case subbatch_size of None \<Rightarrow> int q_length
          | Some c \<Rightarrow> if c = 0 then int q_length else c)"
      define batch_shape where "batch_shape = take (ndim (s ! query) - 2) (shape (s ! query))"
      define out0 where "out0 = \<lparr>shape = batch_shape @ [q_length, v_dim], elem = junk_o\<rparr>"
      define lg0 where "lg0 = \<lparr>shape = batch_shape @ [q_length, k_length], elem = junk_l\<rparr>"
      define s2 where "s2 = s @ [out0, lg0]"
      have rq: "s2 ! query = s ! query" using q by (simp add: s2_def nth_append)
      have eq: "attention (s ! query) (s ! key) scale (s ! value) (s ! bias) subbatch_size junk_o junk_l =
          do {
            chunks \<leftarrow> split (s ! query) c (- 2);
            attention_loop (s ! key) scale (s ! value) (s ! bias) q_length (nat c) 0 chunks (out0, lg0)
          }"
        by (simp add: attention_def ql kl vd Let_def c_def batch_shape_def out0_def lg0_def)
      have eq_st: "attention_st s query key scale value bias subbatch_size junk_o junk_l =
          do {
            chunks \<leftarrow> split (s ! query) c (- 2);
            let views = map (\<lambda>i. (query, (\<lambda>t. the (split t c (- 2)) ! i))) [0..<length chunks];
            attention_loop_st (whole key) scale (whole value) (whole bias) q_length (nat c) 0 views
              (s2, length s, Suc (length s))
          }"
        using q
        by (simp add: attention_st_def ql kl vd Let_def c_def batch_shape_def out0_def lg0_def
            alloc_def s2_def nth_append)
      show ?thesis
      proof (cases "split (s ! query) c (- 2)")
        case None
        then show ?thesis unfolding eq eq_st by simp
      next
        case ch: (Some chunks)
        define views where "views = map (\<lambda>i. (query, (\<lambda>t. the (split t c (- 2)) ! i))) [0..<length chunks]"
        have rv: "map (read s2) views = chunks"
          by (auto simp: views_def read_def rq ch intro!: nth_equalityI)
        have vw: "\<forall>r\<in>set views. fst r < length s" using q by (auto simp: views_def)
        have w: "fst (whole key) < length s" "fst (whole value) < length s"
          "fst (whole bias) < length s"
          using k v b by (simp_all add: whole_def)
        have rw: "read s2 (whole key) = s ! key" "read s2 (whole value) = s ! value"
          "read s2 (whole bias) = s ! bias"
          using k v b by (simp_all add: whole_def read_def s2_def nth_append)
        have o: "s2 ! length s = out0" "s2 ! Suc (length s) = lg0"
          by (simp_all add: s2_def nth_append)
        have l2: "length s < length s2" "Suc (length s) < length s2" by (simp_all add: s2_def)
        have old: "s2 ! a = s ! a" if "a < length s" for a
          using that by (simp add: s2_def nth_append)
        note loop = attention_loop_st_rel[OF w vw order_refl _ _ l2, of scale q_length "nat c" 0,
            unfolded rw rv o]
        have "rel_option (\<lambda>(s', out, lg) (t_out, t_lg).
                        s' ! out = t_out \<and> s' ! lg = t_lg \<and> length s \<le> length s' \<and>
                        (\<forall>a<length s. s' ! a = s ! a))
            (attention_loop_st (whole key) scale (whole value) (whole bias) q_length (nat c) 0 views
              (s2, length s, Suc (length s)))
            (attention_loop (s ! key) scale (s ! value) (s ! bias) q_length (nat c) 0 chunks (out0, lg0))"
          using loop l2 old by (auto simp: option.rel_sel split: prod.splits)
        then show ?thesis unfolding eq eq_st by (simp add: ch views_def)
      qed
    qed
  qed
qed

text \<open>
  C10. A call of \<open>attention\<close> on the tensors at four addresses of a store: whenever it
  returns, every tensor that was in the store before the call, in particular the query, the
  key, the value and the bias, is the same after it, and the two tensors it returns are the
  ones \<open>attention\<close> computes; and it returns whenever \<open>attention\<close> does.
\<close>

theorem attention_st_frame:
  assumes q: "query < length s" and k: "key < length s" and v: "value < length s"
    and b: "bias < length s"
  shows "(\<forall>s' out lg.
            attention_st s query key scale value bias subbatch_size junk_o junk_l = Some (s', out, lg) \<longrightarrow>
            s' ! query = s ! query \<and> s' ! key = s ! key \<and> s' ! value = s ! value \<and>
            s' ! bias = s ! bias \<and> (\<forall>a<length s. s' ! a = s ! a) \<and>
            attention (s ! query) (s ! key) scale (s ! value) (s ! bias) subbatch_size junk_o junk_l =
              Some (s' ! out, s' ! lg)) \<and>
         (\<forall>t_out t_lg.
            attention (s ! query) (s ! key) scale (s ! value) (s ! bias) subbatch_size junk_o junk_l =
              Some (t_out, t_lg) \<longrightarrow>
            (\<exists>s' out lg.
               attention_st s query key scale value bias subbatch_size junk_o junk_l = Some (s', out, lg)))"
  using attention_st_rel[OF q k v b, of scale subbatch_size junk_o junk_l] q k v b
  by (cases "attention_st s query key scale value bias subbatch_size junk_o junk_l";
      cases "attention (s ! query) (s ! key) scale (s ! value) (s ! bias) subbatch_size junk_o junk_l")
     auto

theorem attention_st_frame_witness:
  "\<exists>s' out lg.
     attention_st [ramp [3, 2], ramp [2, 2], ramp [2, 4], full [3, 2] 0] 0 1 1 2 3 (Some 2)
       (\<lambda>i. 0) (\<lambda>i. 0) = Some (s', out, lg) \<and>
     s' ! 0 = ramp [3, 2] \<and> s' ! 1 = ramp [2, 2] \<and> s' ! 2 = ramp [2, 4] \<and> s' ! 3 = full [3, 2] 0"
proof -
  let ?s = "[ramp [3, 2], ramp [2, 2], ramp [2, 4], full [3, 2] 0]"
  have "\<exists>out lg. attention (ramp [3, 2]) (ramp [2, 2]) 1 (ramp [2, 4]) (full [3, 2] 0) (Some 2)
      (\<lambda>i. 0) (\<lambda>i. 0) = Some (out, lg)"
    using attention_rows[where bs = "[]" and query = "ramp [3, 2]" and nq = 3 and d = 2
        and key = "ramp [2, 2]" and nk = 2 and val = "ramp [2, 4]" and dv = 4
        and bias = "full [3, 2] 0" and subbatch_size = "Some 2" and scale = 1
        and junk_o = "\<lambda>i. 0" and junk_l = "\<lambda>i. 0"]
    by (simp add: ramp_def full_def expandable_refl ndim_def) blast
  then obtain t_out t_lg where
    p: "attention (?s ! 0) (?s ! 1) 1 (?s ! 2) (?s ! 3) (Some 2) (\<lambda>i. 0) (\<lambda>i. 0) = Some (t_out, t_lg)"
    by auto
  have l: "(0::nat) < length ?s" "(1::nat) < length ?s" "(2::nat) < length ?s" "(3::nat) < length ?s"
    by simp_all
  note f = attention_st_frame[OF l, of 1 "Some 2" "\<lambda>i. 0" "\<lambda>i. 0"]
  from f p obtain s' out lg where
    st: "attention_st ?s 0 1 1 2 3 (Some 2) (\<lambda>i. 0) (\<lambda>i. 0) = Some (s', out, lg)"
    by blast
  with f have "s' ! 0 = ?s ! 0 \<and> s' ! 1 = ?s ! 1 \<and> s' ! 2 = ?s ! 2 \<and> s' ! 3 = ?s ! 3"
    by blast
  then show ?thesis using st by simp
qed

subsection \<open>\<open>GeometricAttention.forward\<close>\<close>












end
